theory Spec2Isabelle
  imports
    Complex_Main
    "HOL-Library.AList"
    "HOL-Library.Multiset"
    "HOL-Library.Char_ord"
    "HOL-Library.List_Lexorder"
    "HOL-Library.Log_Nat"
begin

section \<open>Strings\<close>

text \<open>
  A JavaScript string is a sequence of code units. The model uses \<^typ>\<open>string\<close>, whose
  characters are the code units 0..255 (ASCII and the Latin-1 supplement); the
  built-in string methods below are written for that range.
\<close>

definition is_space :: "char \<Rightarrow> bool" where
  \<comment> \<open>the white space and line terminators that \<open>String.prototype.trim\<close> removes
      (TAB, LF, VT, FF, CR, SP, NBSP)\<close>
  "is_space c \<longleftrightarrow> of_char c \<in> {9::nat, 10, 11, 12, 13, 32, 160}"

definition trim :: "string \<Rightarrow> string" where
  "trim s = rev (dropWhile is_space (rev (dropWhile is_space s)))"

definition lower_char :: "char \<Rightarrow> char" where
  \<comment> \<open>A-Z and the upper-case letters of Latin-1 (all of 0xC0..0xDE but the
      multiplication sign 0xD7) move 32 code units up\<close>
  "lower_char c =
     (let n = (of_char c :: nat)
      in if (65 \<le> n \<and> n \<le> 90) \<or> (192 \<le> n \<and> n \<le> 222 \<and> n \<noteq> 215)
         then char_of (n + 32) else c)"

definition toLowerCase :: "string \<Rightarrow> string" where
  "toLowerCase s = map lower_char s"

definition endsWith :: "string \<Rightarrow> string \<Rightarrow> bool" where
  "endsWith s suf \<longleftrightarrow> drop (length s - length suf) s = suf"

definition startsWith :: "string \<Rightarrow> string \<Rightarrow> bool" where
  "startsWith s pre \<longleftrightarrow> take (length pre) s = pre"

definition slice_neg :: "string \<Rightarrow> nat \<Rightarrow> string" where
  \<comment> \<open>\<open>s.slice(0, -n)\<close>: a negative end counts from the end of the string, but
      \<open>-0\<close> is \<open>0\<close>, so \<open>n = 0\<close> gives the empty string\<close>
  "slice_neg s n = (if n = 0 then [] else take (length s - n) s)"

definition occurs_at :: "string \<Rightarrow> string \<Rightarrow> nat \<Rightarrow> bool" where
  \<comment> \<open>\<open>pat\<close> is the substring of \<open>s\<close> that starts at index \<open>i\<close>\<close>
  "occurs_at s pat i \<longleftrightarrow> take (length pat) (drop i s) = pat"

fun last_from :: "string \<Rightarrow> string \<Rightarrow> nat \<Rightarrow> nat option" where
  "last_from s pat 0 = (if occurs_at s pat 0 then Some 0 else None)"
| "last_from s pat (Suc k) =
     (if occurs_at s pat (Suc k) then Some (Suc k) else last_from s pat k)"

definition lastIndexOf :: "string \<Rightarrow> string \<Rightarrow> nat option" where
  \<comment> \<open>\<open>s.lastIndexOf(pat)\<close> searches backwards from the end; \<open>None\<close> is \<open>-1\<close>\<close>
  "lastIndexOf s pat = last_from s pat (length s)"

definition is_last_occurrence :: "string \<Rightarrow> string \<Rightarrow> nat \<Rightarrow> bool" where
  "is_last_occurrence s pat i \<longleftrightarrow>
     occurs_at s pat i \<and> (\<forall>j \<in> set [Suc i ..< Suc (length s)]. \<not> occurs_at s pat j)"

definition no_occurrence :: "string \<Rightarrow> string \<Rightarrow> bool" where
  "no_occurrence s pat \<longleftrightarrow> (\<forall>j \<in> set [0 ..< Suc (length s)]. \<not> occurs_at s pat j)"

section \<open>Numbers\<close>

text \<open>
  A JavaScript number is an IEEE 754 double. The model keeps a finite double as the
  rational number it denotes, and every arithmetic operation rounds its exact result to
  the nearest double, ties to the even significand: 53 significant bits, with gradual
  underflow below \<open>2\<^sup>-\<^sup>1\<^sup>0\<^sup>2\<^sup>2\<close>. Overflow to \<open>Infinity\<close> is not modelled: no value of the
  program below comes near \<open>2\<^sup>1\<^sup>0\<^sup>2\<^sup>4\<close>. A counter that may be \<open>NaN\<close> has a type of
  its own (\<open>count\<close>).
\<close>

definition round_even :: "rat \<Rightarrow> int" where
  \<comment> \<open>the nearest integer, the even one of two that are equally near\<close>
  "round_even q =
     (let f = \<lfloor>q\<rfloor>; d = q - of_int f
      in if d < 1 / 2 then f else if 1 / 2 < d then f + 1 else if even f then f else f + 1)"

definition expo :: "rat \<Rightarrow> int" where
  \<comment> \<open>the binary exponent \<open>e\<close> of \<open>x \<noteq> 0\<close>: \<open>2\<^sup>e \<le> |x| < 2\<^sup>e\<^sup>+\<^sup>1\<close>\<close>
  "expo x =
     (let d = bitlen (fst (quotient_of \<bar>x\<bar>)) - bitlen (snd (quotient_of \<bar>x\<bar>))
      in if 2 powi d \<le> \<bar>x\<bar> then d else d - 1)"

definition fl :: "rat \<Rightarrow> rat" where
  \<comment> \<open>rounding to the nearest double; \<open>u\<close> is the distance of the doubles around \<open>x\<close>\<close>
  "fl x =
     (if x = 0 then 0
      else let u = 2 powi (max (expo x) (- 1022) - 52)
           in of_int (round_even (x / u)) * u)"

definition dbl_add :: "rat \<Rightarrow> rat \<Rightarrow> rat" where
  "dbl_add a b = fl (a + b)"

definition dbl_mul :: "rat \<Rightarrow> rat \<Rightarrow> rat" where
  "dbl_mul a b = fl (a * b)"

definition dbl_div :: "rat \<Rightarrow> rat \<Rightarrow> rat" where
  \<comment> \<open>for a divisor other than 0\<close>
  "dbl_div a b = fl (a / b)"

section \<open>Objects used as dictionaries\<close>

text \<open>
  A plain object is modelled by the association list of its own properties, in insertion
  order (JavaScript lists the keys that are array indices first; nothing below depends
  on the order), and by what it inherits from \<open>Object.prototype\<close>. Reading a key that the object
  does not hold itself finds the inherited property of that name, if there is one.
  Assigning a string or a number to the key \<open>__proto__\<close> does nothing: the inherited
  setter ignores a value that is neither an object nor \<open>null\<close>. Any other assignment
  replaces the value of an own key in place or appends a new own key
  (\<^const>\<open>AList.update\<close>), as \<open>Map.set\<close> does for a \<open>Map\<close>, which inherits nothing.
\<close>

definition object_prototype_keys :: "string list" where
  "object_prototype_keys =
     [''constructor'', ''__defineGetter__'', ''__defineSetter__'', ''hasOwnProperty'',
      ''__lookupGetter__'', ''__lookupSetter__'', ''isPrototypeOf'', ''propertyIsEnumerable'',
      ''toString'', ''valueOf'', ''__proto__'', ''toLocaleString'']"

definition inherited_text :: "string \<Rightarrow> string" where
  \<comment> \<open>the string that a template literal makes of the inherited property: built-in
      functions in the notation of V8, and \<open>Object.prototype\<close> itself for \<open>__proto__\<close>\<close>
  "inherited_text key =
     (if key = ''__proto__'' then ''[object Object]''
      else if key = ''constructor'' then ''function Object() { [native code] }''
      else ''function '' @ key @ ''() { [native code] }'')"

datatype 'v property = Undefined | Own 'v | Inherited string

definition get_property :: "(string \<times> 'v) list \<Rightarrow> string \<Rightarrow> 'v property" where
  \<comment> \<open>\<open>obj[key]\<close>; an inherited value (a function or an object) is kept as its text\<close>
  "get_property obj key =
     (case map_of obj key of
        Some v \<Rightarrow> Own v
      | None \<Rightarrow>
          if key \<in> set object_prototype_keys then Inherited (inherited_text key)
          else Undefined)"

definition set_property :: "(string \<times> 'v) list \<Rightarrow> string \<Rightarrow> 'v \<Rightarrow> (string \<times> 'v) list" where
  \<comment> \<open>\<open>obj[key] = v\<close> for a string or a number \<open>v\<close>, on an object built by the program\<close>
  "set_property obj key v = (if key = ''__proto__'' then obj else AList.update key v obj)"

section \<open>The manifest generator (scripts/generate-manifest.js)\<close>

subsection \<open>Configuration\<close>

record config =
  instruments :: "string list"
  fileExtension :: string
  githubPagesBaseUrl :: "string option"

definition CONFIG :: config where
  "CONFIG = \<lparr> instruments = [''kick'', ''snare'', ''hihat'', ''clap'', ''crash'', ''open'',
                              ''rim'', ''bell''],
              fileExtension = ''.wav'',
              githubPagesBaseUrl = Some ''https://casa24records.github.io/Drum-Machine-PRO'' \<rparr>"

subsection \<open>parseFilename\<close>

definition parseFilename :: "config \<Rightarrow> string \<Rightarrow> (string \<times> string) option" where
  \<comment> \<open>\<open>None\<close> is the \<open>null\<close> of the source; the pair is \<open>{ soundkitName, instrument }\<close>\<close>
  "parseFilename cfg filename =
     (if \<not> endsWith filename (fileExtension cfg) then None
      else
        let nameWithoutExt = slice_neg filename (length (fileExtension cfg))
        in case lastIndexOf nameWithoutExt '' - '' of
             None \<Rightarrow> None
           | Some lastHyphenIndex \<Rightarrow>
               let soundkitName = trim (take lastHyphenIndex nameWithoutExt);
                   instrument = toLowerCase (trim (drop (lastHyphenIndex + 3) nameWithoutExt))
               in if instrument \<notin> set (instruments cfg) then None
                  else Some (soundkitName, instrument))"

subsection \<open>generateId\<close>

definition is_alnum :: "char \<Rightarrow> bool" where
  \<comment> \<open>the character class \<open>[a-z0-9]\<close>\<close>
  "is_alnum c \<longleftrightarrow>
     (let n = (of_char c :: nat) in (97 \<le> n \<and> n \<le> 122) \<or> (48 \<le> n \<and> n \<le> 57))"

function replace_runs :: "string \<Rightarrow> string" where
  \<comment> \<open>\<open>.replace(/[^a-z0-9]+/g, '-')\<close>: the greedy \<open>+\<close> takes the whole run\<close>
  "replace_runs [] = []"
| "replace_runs (c # cs) =
     (if is_alnum c then c # replace_runs cs
      else CHR ''-'' # replace_runs (dropWhile (\<lambda>x. \<not> is_alnum x) cs))"
  by pat_completeness auto
termination
  by (relation "measure length") (auto simp: le_imp_less_Suc length_dropWhile_le)

definition strip_edges :: "string \<Rightarrow> string" where
  \<comment> \<open>\<open>.replace(/^-|-$/g, '')\<close>: one hyphen at the start, then one at the end of
      what is left to scan\<close>
  "strip_edges s =
     (let s1 = (case s of [] \<Rightarrow> [] | c # cs \<Rightarrow> if c = CHR ''-'' then cs else s)
      in if s1 \<noteq> [] \<and> last s1 = CHR ''-'' then butlast s1 else s1)"

definition generateId :: "string \<Rightarrow> string" where
  "generateId name = strip_edges (replace_runs (toLowerCase name))"

text \<open>
  The slug as the data model describes it: the maximal runs of \<open>[a-z0-9]\<close> of the
  lower-cased name, joined by single hyphens.
\<close>

function words_of :: "string \<Rightarrow> string list" where
  "words_of s =
     (case dropWhile (\<lambda>x. \<not> is_alnum x) s of
        [] \<Rightarrow> []
      | c # cs \<Rightarrow> takeWhile is_alnum (c # cs) # words_of (dropWhile is_alnum cs))"
  by pat_completeness auto
termination
proof (relation "measure length")
  show "wf (measure length)" by simp
next
  fix s :: string and c cs
  assume h: "dropWhile (\<lambda>x. \<not> is_alnum x) s = c # cs"
  have "length (dropWhile is_alnum cs) \<le> length cs"
    by (rule length_dropWhile_le)
  also have "\<dots> < length (c # cs)" by simp
  also have "\<dots> \<le> length s"
    unfolding h [symmetric] by (rule length_dropWhile_le)
  finally show "(dropWhile is_alnum cs, s) \<in> measure length" by simp
qed

declare words_of.simps [simp del]

fun join_with :: "string \<Rightarrow> string list \<Rightarrow> string" where
  "join_with sep [] = []"
| "join_with sep [w] = w"
| "join_with sep (w # v # ws) = w @ sep @ join_with sep (v # ws)"

definition slug_spec :: "string \<Rightarrow> string" where
  "slug_spec name = join_with ''-'' (words_of (toLowerCase name))"

subsection \<open>scan\<close>

text \<open>
  \<open>this.soundkits\<close> is a \<open>Map\<close>: an association list in insertion order. The
  \<open>instruments\<close> of a kit are a plain object.
\<close>

record kit =
  name :: string
  kit_id :: string
  kit_instruments :: "(string \<times> string) list"
  completeness :: rat
  availableInstruments :: "string list"

definition new_kit :: "string \<Rightarrow> kit" where
  "new_kit soundkitName =
     \<lparr> name = soundkitName, kit_id = generateId soundkitName, kit_instruments = [],
       completeness = 0, availableInstruments = [] \<rparr>"

definition add_file ::
  "config \<Rightarrow> string \<Rightarrow> (string \<times> kit) list \<Rightarrow> string \<Rightarrow> (string \<times> kit) list" where
  \<comment> \<open>the body of the inner loop of \<open>scan\<close>, for one file of the folder of \<open>instrument\<close>:
      \<open>soundkit\<close> is the kit that \<open>this.soundkits.get(soundkitName)\<close> returns after the
      \<open>has\<close>/\<open>set\<close> that creates a missing one, and the update writes the mutated kit
      back under its key\<close>
  "add_file cfg instrument sk filename =
     (if \<not> endsWith filename (fileExtension cfg) \<or> startsWith filename ''.'' then sk
      else case parseFilename cfg filename of
             None \<Rightarrow> sk
           | Some (soundkitName, _) \<Rightarrow>
               let soundkit = (case map_of sk soundkitName of
                                 None \<Rightarrow> new_kit soundkitName
                               | Some k \<Rightarrow> k)
               in AList.update soundkitName
                    (soundkit \<lparr> kit_instruments :=
                                 set_property (kit_instruments soundkit) instrument
                                   (instrument @ ''/'' @ filename),
                               availableInstruments :=
                                 availableInstruments soundkit @ [instrument] \<rparr>)
                    sk)"

definition scan_folder ::
  "config \<Rightarrow> (string \<Rightarrow> string list option) \<Rightarrow> (string \<times> kit) list \<Rightarrow> string
     \<Rightarrow> (string \<times> kit) list" where
  \<comment> \<open>\<open>readdir instrument\<close> is the listing of the folder of \<open>instrument\<close>, or \<open>None\<close>
      when \<open>fs.readdir\<close> throws: the \<open>catch\<close> then leaves the map as it is\<close>
  "scan_folder cfg readdir sk instrument =
     (case readdir instrument of
        None \<Rightarrow> sk
      | Some files \<Rightarrow> foldl (add_file cfg instrument) sk files)"

definition uniq :: "'a list \<Rightarrow> 'a list" where
  \<comment> \<open>\<open>[...new Set(xs)]\<close>: the first occurrence of each element, in order\<close>
  "uniq xs = rev (remdups (rev xs))"

definition finish_kit :: "config \<Rightarrow> kit \<Rightarrow> kit" where
  \<comment> \<open>the vocabulary is not empty where a kit exists, so the divisor is not 0\<close>
  "finish_kit cfg soundkit =
     (let available = sort (uniq (availableInstruments soundkit))
      in soundkit \<lparr> availableInstruments := available,
                    completeness :=
                      dbl_mul (dbl_div (of_nat (length available))
                                 (of_nat (length (instruments cfg)))) 100 \<rparr>)"

definition scan :: "config \<Rightarrow> (string \<Rightarrow> string list option) \<Rightarrow> (string \<times> kit) list" where
  "scan cfg readdir =
     map (\<lambda>(n, soundkit). (n, finish_kit cfg soundkit))
       (foldl (scan_folder cfg readdir) [] (instruments cfg))"

subsection \<open>generateStatistics and generateManifest\<close>

datatype count = NaN | Count nat

fun incr :: "count property \<Rightarrow> count" where
  \<comment> \<open>the value that \<open>x++\<close> stores: \<open>undefined\<close>, \<open>NaN\<close> and an inherited function or
      object give \<open>NaN\<close>\<close>
  "incr (Own (Count n)) = Count (Suc n)"
| "incr (Own NaN) = NaN"
| "incr Undefined = NaN"
| "incr (Inherited v) = NaN"

record statistics =
  totalFiles :: nat
  instrumentCoverage :: "(string \<times> count) list"
  completeSoundkits :: nat
  averageCompleteness :: rat

definition count_instrument :: "statistics \<Rightarrow> string \<Rightarrow> statistics" where
  "count_instrument stats inst =
     stats \<lparr> instrumentCoverage :=
               set_property (instrumentCoverage stats) inst
                 (incr (get_property (instrumentCoverage stats) inst)),
             totalFiles := Suc (totalFiles stats) \<rparr>"

definition count_kit :: "statistics \<Rightarrow> kit \<Rightarrow> statistics" where
  "count_kit stats kit =
     (let stats1 = foldl count_instrument stats (availableInstruments kit)
      in if completeness kit = 100
         then stats1 \<lparr> completeSoundkits := Suc (completeSoundkits stats1) \<rparr>
         else stats1)"

definition generateStatistics :: "config \<Rightarrow> kit list \<Rightarrow> statistics" where
  "generateStatistics cfg kits =
     (let stats0 = \<lparr> totalFiles = 0,
                     instrumentCoverage =
                       foldl (\<lambda>cov inst. set_property cov inst (Count 0)) [] (instruments cfg),
                     completeSoundkits = 0,
                     averageCompleteness = 0 \<rparr>;
          stats1 = foldl count_kit stats0 kits
      in stats1 \<lparr> averageCompleteness :=
                   (if length kits > 0
                    then dbl_div (foldl (\<lambda>sum kit. dbl_add sum (completeness kit)) 0 kits)
                           (of_nat (length kits))
                    else 0) \<rparr>)"


text \<open>
  \<open>Array.prototype.sort\<close> with a comparator is a stable sort: \<open>a\<close> stays before \<open>b\<close>
  unless the comparator says \<open>b\<close> comes first. Insertion from the right is such a sort.
\<close>

fun insert_by :: "('a \<Rightarrow> 'a \<Rightarrow> 'n::{zero,ord}) \<Rightarrow> 'a \<Rightarrow> 'a list \<Rightarrow> 'a list" where
  "insert_by cmp x [] = [x]"
| "insert_by cmp x (y # ys) =
     (if cmp x y \<le> 0 then x # y # ys else y # insert_by cmp x ys)"

definition sort_by :: "('a \<Rightarrow> 'a \<Rightarrow> 'n::{zero,ord}) \<Rightarrow> 'a list \<Rightarrow> 'a list" where
  "sort_by cmp xs = foldr (insert_by cmp) xs []"

record manifest =
  version :: string
  generated :: string
  totalSoundkits :: nat
  manifest_instruments :: "string list"
  manifest_baseUrl :: "string option"
  soundkits :: "kit list"
  statistics :: statistics

definition or_null :: "string option \<Rightarrow> string option" where
  \<comment> \<open>\<open>x || null\<close> on a string that may be missing: the empty string is falsy\<close>
  "or_null x = (case x of None \<Rightarrow> None | Some s \<Rightarrow> if s = [] then None else Some s)"

definition generateManifest ::
  "(string \<Rightarrow> string \<Rightarrow> int) \<Rightarrow> string \<Rightarrow> config \<Rightarrow> (string \<times> kit) list \<Rightarrow> manifest" where
  \<comment> \<open>\<open>localeCompare\<close> (the locale's collation) and \<open>now\<close> (the clock) are parameters;
      \<open>sk\<close> is \<open>this.soundkits\<close>\<close>
  "generateManifest localeCompare now cfg sk =
     (let soundkitsArray = sort_by (\<lambda>a b. localeCompare (name a) (name b)) (map snd sk)
      in \<lparr> version = ''1.0.0'',
           generated = now,
           totalSoundkits = length soundkitsArray,
           manifest_instruments = instruments cfg,
           manifest_baseUrl = or_null (githubPagesBaseUrl cfg),
           soundkits = soundkitsArray,
           statistics = generateStatistics cfg soundkitsArray \<rparr>)"

section \<open>The accessor (index.js)\<close>

datatype error = TypeError

record options =
  opt_baseUrl :: "string option"
  opt_samplesPath :: "string option"

record manager =
  mgr_manifest :: manifest
  baseUrl :: string
  samplesPath :: string
  soundkitMap :: "(string \<times> kit) list"
  soundkitsByInstrument :: "(string \<times> string list) list"

fun fold_err :: "('s \<Rightarrow> 'a \<Rightarrow> error + 's) \<Rightarrow> 's \<Rightarrow> 'a list \<Rightarrow> error + 's" where
  \<comment> \<open>a \<open>forEach\<close> whose callback may throw: the first exception ends the loop\<close>
  "fold_err f s [] = Inr s"
| "fold_err f s (x # xs) = (case f s x of Inl e \<Rightarrow> Inl e | Inr s' \<Rightarrow> fold_err f s' xs)"

definition push_id ::
  "string \<Rightarrow> (string \<times> string list) list \<Rightarrow> string \<Rightarrow> error + (string \<times> string list) list" where
  \<comment> \<open>\<open>this.soundkitsByInstrument.get(instrument).push(soundkit.id)\<close>: \<open>.push\<close> on
      \<open>undefined\<close> throws a TypeError\<close>
  "push_id ident byInst instrument =
     (case map_of byInst instrument of
        None \<Rightarrow> Inl TypeError
      | Some ids \<Rightarrow> Inr (AList.update instrument (ids @ [ident]) byInst))"

definition index_kit ::
  "(string \<times> kit) list \<times> (string \<times> string list) list \<Rightarrow> kit
     \<Rightarrow> error + ((string \<times> kit) list \<times> (string \<times> string list) list)" where
  "index_kit maps soundkit =
     (let byId = AList.update (kit_id soundkit) soundkit (fst maps)
      in case fold_err (push_id (kit_id soundkit)) (snd maps) (availableInstruments soundkit) of
           Inl e \<Rightarrow> Inl e
         | Inr byInst \<Rightarrow> Inr (byId, byInst))"

definition buildLookupMaps ::
  "manifest \<Rightarrow> error + ((string \<times> kit) list \<times> (string \<times> string list) list)" where
  "buildLookupMaps m =
     (let byInst0 = foldl (\<lambda>acc instrument. AList.update instrument [] acc) []
                      (manifest_instruments m)
      in fold_err index_kit ([], byInst0) (soundkits m))"

definition or_else :: "string option \<Rightarrow> string \<Rightarrow> string" where
  \<comment> \<open>\<open>x || d\<close> on a string that may be missing\<close>
  "or_else x d = (case x of None \<Rightarrow> d | Some s \<Rightarrow> if s = [] then d else s)"

definition new_manager :: "manifest \<Rightarrow> options \<Rightarrow> error + manager" where
  \<comment> \<open>the constructor\<close>
  "new_manager manifestData opts =
     (case buildLookupMaps manifestData of
        Inl e \<Rightarrow> Inl e
      | Inr maps \<Rightarrow>
          Inr \<lparr> mgr_manifest = manifestData,
                baseUrl = or_else (opt_baseUrl opts) (or_else (manifest_baseUrl manifestData) []),
                samplesPath = or_else (opt_samplesPath opts) ''samples'',
                soundkitMap = fst maps,
                soundkitsByInstrument = snd maps \<rparr>)"

definition getSoundkit :: "manager \<Rightarrow> string \<Rightarrow> kit option" where
  "getSoundkit mgr soundkitId = map_of (soundkitMap mgr) soundkitId"



subsection \<open>getSoundkitsByCompleteness, on a store of arrays\<close>

text \<open>
  \<open>sort\<close> works in place, so the arrays are kept in a store: an array is named by its
  address, the index of its contents in the store. A new array gets the next address.
\<close>

type_synonym addr = nat
type_synonym store = "kit list list"

definition spread :: "addr \<Rightarrow> store \<Rightarrow> addr \<times> store" where
  \<comment> \<open>\<open>[...a]\<close>: a new array with the elements of \<open>a\<close>\<close>
  "spread a st = (length st, st @ [st ! a])"

definition sort_in_place :: "(kit \<Rightarrow> kit \<Rightarrow> rat) \<Rightarrow> addr \<Rightarrow> store \<Rightarrow> addr \<times> store" where
  \<comment> \<open>\<open>a.sort(cmp)\<close> sorts the array \<open>a\<close> itself and returns it\<close>
  "sort_in_place cmp a st = (a, st[a := sort_by cmp (st ! a)])"

definition getSoundkitsByCompleteness :: "bool \<Rightarrow> addr \<Rightarrow> store \<Rightarrow> addr \<times> store" where
  \<comment> \<open>\<open>soundkits_ref\<close> is the address of \<open>this.manifest.soundkits\<close>\<close>
  "getSoundkitsByCompleteness ascending soundkits_ref st =
     (let (copy, st1) = spread soundkits_ref st
      in sort_in_place
           (\<lambda>a b. if ascending then completeness a - completeness b
                  else completeness b - completeness a)
           copy st1)"

section \<open>Auxiliary definitions for the statements and proofs\<close>

definition lead :: "string \<Rightarrow> string" where
  \<comment> \<open>the hyphen that \<open>replace_runs\<close> leaves at the start\<close>
  "lead s = (if s \<noteq> [] \<and> \<not> is_alnum (hd s) then ''-'' else [])"

definition trail :: "string \<Rightarrow> string" where
  \<comment> \<open>the hyphen that \<open>replace_runs\<close> leaves at the end\<close>
  "trail s = (if s \<noteq> [] \<and> \<not> is_alnum (last s) then ''-'' else [])"

definition maps_ok ::
  "string list \<Rightarrow> (string \<times> kit) list \<times> (string \<times> string list) list \<Rightarrow> bool" where
  \<comment> \<open>the invariant of the loop of \<open>_buildLookupMaps\<close>: the instrument map has the
      vocabulary as its keys, and it lists only ids that the id map knows\<close>
  "maps_ok vocab maps \<longleftrightarrow>
     dom (map_of (snd maps)) = set vocab \<and>
     (\<forall>t ids. map_of (snd maps) t = Some ids \<longrightarrow> set ids \<subseteq> dom (map_of (fst maps)))"

definition percent :: "nat \<Rightarrow> nat \<Rightarrow> rat" where
  \<comment> \<open>the completeness of a kit with \<open>a\<close> of \<open>n\<close> instruments, as \<open>scan\<close> computes it\<close>
  "percent a n = dbl_mul (dbl_div (of_nat a) (of_nat n)) 100"





definition accepted :: "config \<Rightarrow> string \<Rightarrow> bool" where
  \<comment> \<open>the files of a listing that \<open>scan\<close> does not skip\<close>
  "accepted cfg filename \<longleftrightarrow>
     endsWith filename (fileExtension cfg) \<and> \<not> startsWith filename ''.'' \<and>
     parseFilename cfg filename \<noteq> None"

definition kit_name_of :: "config \<Rightarrow> string \<Rightarrow> string" where
  \<comment> \<open>the \<open>soundkitName\<close> that \<open>parseFilename\<close> gives for an accepted file\<close>
  "kit_name_of cfg filename =
     (case parseFilename cfg filename of None \<Rightarrow> [] | Some (soundkitName, _) \<Rightarrow> soundkitName)"

definition apply_event :: "kit \<Rightarrow> string \<times> string \<Rightarrow> kit" where
  \<comment> \<open>what \<open>scan\<close> does to the kit of an accepted file \<open>snd e\<close> of the folder \<open>fst e\<close>\<close>
  "apply_event soundkit e =
     soundkit \<lparr> kit_instruments :=
                  set_property (kit_instruments soundkit) (fst e) (fst e @ ''/'' @ snd e),
                availableInstruments := availableInstruments soundkit @ [fst e] \<rparr>"

definition add_event ::
  "(string \<times> kit) list \<Rightarrow> string \<times> string \<times> string \<Rightarrow> (string \<times> kit) list" where
  \<comment> \<open>an event is (kit name, instrument, filename)\<close>
  "add_event sk e =
     AList.update (fst e)
       (apply_event (case map_of sk (fst e) of None \<Rightarrow> new_kit (fst e) | Some k \<Rightarrow> k) (snd e))
       sk"

definition folder_events ::
  "config \<Rightarrow> (string \<Rightarrow> string list option) \<Rightarrow> string \<Rightarrow> (string \<times> string \<times> string) list" where
  "folder_events cfg readdir instrument =
     (case readdir instrument of
        None \<Rightarrow> []
      | Some files \<Rightarrow>
          map (\<lambda>f. (kit_name_of cfg f, instrument, f)) (filter (accepted cfg) files))"

definition events ::
  "config \<Rightarrow> (string \<Rightarrow> string list option) \<Rightarrow> (string \<times> string \<times> string) list" where
  \<comment> \<open>the accepted files in the order in which \<open>scan\<close> meets them\<close>
  "events cfg readdir = concat (map (folder_events cfg readdir) (instruments cfg))"

definition events_for :: "string \<Rightarrow> (string \<times> string \<times> string) list \<Rightarrow> (string \<times> string) list" where
  "events_for n evs = map snd (filter (\<lambda>e. fst e = n) evs)"

definition path_of :: "string \<times> string \<Rightarrow> string \<times> string" where
  "path_of e = (fst e, fst e @ ''/'' @ snd e)"

definition last_opt :: "'a list \<Rightarrow> 'a option" where
  \<comment> \<open>the last element of a list, if it has one\<close>
  "last_opt xs = (if xs = [] then None else Some (last xs))"

definition stored_path ::
  "config \<Rightarrow> (string \<Rightarrow> string list option) \<Rightarrow> string \<Rightarrow> string \<Rightarrow> string option" where
  \<comment> \<open>the path of the file that the listing of the folder \<open>t\<close> lists last among the
      accepted files of the kit \<open>n\<close>\<close>
  "stored_path cfg readdir n t =
     (if t = ''__proto__'' \<or> t \<notin> set (instruments cfg) then None
      else case readdir t of
             None \<Rightarrow> None
           | Some files \<Rightarrow>
               map_option (\<lambda>f. t @ ''/'' @ f)
                 (last_opt (filter (\<lambda>f. accepted cfg f \<and> kit_name_of cfg f = n) files)))"

definition no_clash :: "config \<Rightarrow> (string \<Rightarrow> string list option) \<Rightarrow> string \<Rightarrow> bool" where
  \<comment> \<open>no folder holds two accepted files for the kit \<open>n\<close>\<close>
  "no_clash cfg readdir n \<longleftrightarrow>
     (\<forall>t \<in> set (instruments cfg).
        case readdir t of
          None \<Rightarrow> True
        | Some files \<Rightarrow>
            (\<forall>f \<in> set files. \<forall>f' \<in> set files.
               accepted cfg f \<and> accepted cfg f' \<and>
               kit_name_of cfg f = n \<and> kit_name_of cfg f' = n \<longrightarrow> f = f'))"

section \<open>Example inputs\<close>

definition compare_codes :: "string \<Rightarrow> string \<Rightarrow> int" where
  \<comment> \<open>a comparison of strings by code units, for the examples that need a collation\<close>
  "compare_codes a b = (if a < b then - 1 else if a = b then 0 else 1)"

definition batman_readdir :: "string \<Rightarrow> string list option" where
  \<comment> \<open>the folders \<open>kick\<close> and \<open>snare\<close> hold one file each; no other folder exists\<close>
  "batman_readdir instrument =
     (if instrument = ''kick'' then Some [''Batman Begins - kick.wav'']
      else if instrument = ''snare'' then Some [''Batman Begins - snare.wav'']
      else None)"

definition batman_manifest :: manifest where
  "batman_manifest =
     generateManifest compare_codes ''2024-01-01T00:00:00.000Z'' CONFIG (scan CONFIG batman_readdir)"

definition cowbell_kit :: kit where
  \<comment> \<open>a kit with a tag that the vocabulary of \<open>CONFIG\<close> lacks\<close>
  "cowbell_kit =
     \<lparr> name = ''Farm'', kit_id = ''farm'',
       kit_instruments = [(''cowbell'', ''cowbell/Farm - cowbell.wav'')],
       completeness = 0, availableInstruments = [''cowbell''] \<rparr>"

definition cowbell_manifest :: manifest where
  \<comment> \<open>a manifest whose only kit lists a tag that the manifest's vocabulary lacks\<close>
  "cowbell_manifest = batman_manifest \<lparr> soundkits := [cowbell_kit] \<rparr>"

definition no_options :: options where
  "no_options = \<lparr> opt_baseUrl = None, opt_samplesPath = None \<rparr>"

definition demo_kit :: "string \<Rightarrow> rat \<Rightarrow> kit" where
  "demo_kit n c = \<lparr> name = n, kit_id = generateId n, kit_instruments = [],
                    completeness = c, availableInstruments = [] \<rparr>"

definition demo_store :: store where
  "demo_store = [[demo_kit ''A'' 50, demo_kit ''B'' 25, demo_kit ''C'' 50]]"

definition batman_kit :: kit where
  "batman_kit =
     \<lparr> name = ''Batman Begins'', kit_id = ''batman-begins'',
       kit_instruments = [(''kick'', ''kick/Batman Begins - kick.wav''),
                          (''snare'', ''snare/Batman Begins - snare.wav'')],
       completeness = 25, availableInstruments = [''kick'', ''snare''] \<rparr>"

definition solo_config :: config where
  \<comment> \<open>a vocabulary of one tag\<close>
  "solo_config = CONFIG \<lparr> instruments := [''kick''] \<rparr>"

definition solo_readdir :: "string \<Rightarrow> string list option" where
  "solo_readdir = map_of [(''kick'', [''Solo - kick.wav''])]"

definition solo_kit :: kit where
  "solo_kit =
     \<lparr> name = ''Solo'', kit_id = ''solo'',
       kit_instruments = [(''kick'', ''kick/Solo - kick.wav'')],
       completeness = 100, availableInstruments = [''kick''] \<rparr>"


definition clash_readdir :: "string \<Rightarrow> string list option" where
  \<comment> \<open>two files of the folder \<open>kick\<close> that belong to the same kit\<close>
  "clash_readdir = map_of [(''kick'', [''Batman Begins - kick.wav'', ''Batman Begins - Kick.wav''])]"

definition clash_readdir_swapped :: "string \<Rightarrow> string list option" where
  "clash_readdir_swapped =
     map_of [(''kick'', [''Batman Begins - Kick.wav'', ''Batman Begins - kick.wav''])]"

definition clash_kit :: kit where
  \<comment> \<open>the kit that \<open>scan\<close> builds from \<open>clash_readdir\<close>\<close>
  "clash_kit =
     \<lparr> name = ''Batman Begins'', kit_id = ''batman-begins'',
       kit_instruments = [(''kick'', ''kick/Batman Begins - Kick.wav'')],
       completeness = 25 / 2, availableInstruments = [''kick''] \<rparr>"

definition clash_kit_swapped :: kit where
  "clash_kit_swapped =
     clash_kit \<lparr> kit_instruments := [(''kick'', ''kick/Batman Begins - kick.wav'')] \<rparr>"

definition two_readdir :: "string \<Rightarrow> string list option" where
  "two_readdir =
     map_of [(''kick'', [''Batman Begins - kick.wav'', ''Joker - kick.wav'']),
             (''snare'', [''Batman Begins - snare.wav''])]"


definition two_readdir_swapped :: "string \<Rightarrow> string list option" where
  "two_readdir_swapped =
     map_of [(''kick'', [''Joker - kick.wav'', ''Batman Begins - kick.wav'']),
             (''snare'', [''Batman Begins - snare.wav''])]"

definition reversed_config :: config where
  "reversed_config = CONFIG \<lparr> instruments := rev (instruments CONFIG) \<rparr>"

definition batman_kit_rev :: kit where
  \<comment> \<open>the kit \<open>Batman Begins\<close> when the folder \<open>snare\<close> is scanned before \<open>kick\<close>\<close>
  "batman_kit_rev = batman_kit \<lparr> kit_instruments := rev (kit_instruments batman_kit) \<rparr>"



definition twice_config :: config where
  \<comment> \<open>a vocabulary that lists its only tag twice\<close>
  "twice_config = CONFIG \<lparr> instruments := [''kick'', ''kick''] \<rparr>"

definition half_kit :: kit where
  "half_kit = solo_kit \<lparr> completeness := 50 \<rparr>"

definition third_config :: config where
  \<comment> \<open>a vocabulary of three tags\<close>
  "third_config = CONFIG \<lparr> instruments := [''kick'', ''snare'', ''hihat''] \<rparr>"

definition third_kit :: kit where
  \<comment> \<open>the kit \<open>Batman Begins\<close> over three tags; its completeness is the double that
      prints as \<open>66.66666666666666\<close>\<close>
  "third_kit = batman_kit \<lparr> completeness := 2345624805922133 / 35184372088832 \<rparr>"






definition bare_config :: config where
  \<comment> \<open>a configuration whose required extension is the empty string\<close>
  "bare_config = CONFIG \<lparr> fileExtension := [] \<rparr>"

definition padded_config :: config where
  \<comment> \<open>a vocabulary whose only tag starts with a space\<close>
  "padded_config = CONFIG \<lparr> instruments := ['' kick''] \<rparr>"

section \<open>Properties of the numbers\<close>

lemma round_even_le:
  assumes "q \<le> of_int N"
  shows "round_even q \<le> N"
proof -
  have f: "\<lfloor>q\<rfloor> \<le> N" using assms by (simp add: floor_le_iff)
  show ?thesis
  proof (cases "\<lfloor>q\<rfloor> = N")
    case True
    then have "of_int N \<le> q" by (metis of_int_floor_le)
    with assms have "q = of_int N" by simp
    then show ?thesis by (simp add: round_even_def)
  next
    case False
    with f have "\<lfloor>q\<rfloor> + 1 \<le> N" by simp
    then show ?thesis by (auto simp: round_even_def Let_def)
  qed
qed

lemma round_even_nonneg:
  assumes "0 \<le> q"
  shows "0 \<le> round_even q"
proof -
  from assms have "0 \<le> \<lfloor>q\<rfloor>" by simp
  then show ?thesis by (auto simp: round_even_def Let_def)
qed

lemma pow2_bitlen:
  assumes "0 < (p::int)"
  shows "(2::rat) powi (bitlen p - 1) \<le> of_int p" and "(of_int p :: rat) < 2 powi (bitlen p)"
proof -
  from assms have b: "1 \<le> bitlen p" by (auto simp: bitlen_alt_def)
  from bitlen_bounds [OF assms] have
    lo: "2 ^ nat (bitlen p - 1) \<le> p" and hi: "p < 2 ^ nat (bitlen p)" by simp_all
  from lo have "(of_int (2 ^ nat (bitlen p - 1)) :: rat) \<le> of_int p" by (simp only: of_int_le_iff)
  then show "(2::rat) powi (bitlen p - 1) \<le> of_int p" using b by (simp add: power_int_def)
  from hi have "(of_int p :: rat) < of_int (2 ^ nat (bitlen p))" by (simp only: of_int_less_iff)
  then show "(of_int p :: rat) < 2 powi (bitlen p)" using b by (simp add: power_int_def)
qed

lemma expo_bounds:
  assumes "0 < x"
  shows "2 powi expo x \<le> x" and "x < 2 powi (expo x + 1)"
proof -
  obtain p q where pq: "quotient_of x = (p, q)" by (cases "quotient_of x") auto
  then have q: "0 < q" by (rule quotient_of_denom_pos)
  from pq have x: "x = of_int p / of_int q" by (rule quotient_of_div)
  from assms q x have p: "0 < p" by (simp add: zero_less_divide_iff)
  let ?d = "bitlen p - bitlen q"
  have ax: "\<bar>x\<bar> = x" using assms by simp
  have e: "expo x = (if 2 powi ?d \<le> x then ?d else ?d - 1)"
    by (simp add: expo_def ax pq Let_def)
  have qpos: "(0::rat) < of_int q" using q by simp
  have "x < 2 powi (bitlen p) / 2 powi (bitlen q - 1)"
  proof -
    have "x < 2 powi (bitlen p) / of_int q"
      unfolding x using pow2_bitlen(2) [OF p] qpos by (simp add: divide_strict_right_mono)
    also have "\<dots> \<le> 2 powi (bitlen p) / 2 powi (bitlen q - 1)"
    proof (rule divide_left_mono)
      show "(2::rat) powi (bitlen q - 1) \<le> of_int q" by (rule pow2_bitlen(1) [OF q])
      show "(0::rat) \<le> 2 powi bitlen p" by simp
      show "0 < of_int q * (2::rat) powi (bitlen q - 1)" using qpos by simp
    qed
    finally show ?thesis .
  qed
  also have "2 powi (bitlen p) / 2 powi (bitlen q - 1) = (2::rat) powi (?d + 1)"
  proof -
    have "(2::rat) powi (bitlen p - (bitlen q - 1)) = 2 powi (bitlen p) / 2 powi (bitlen q - 1)"
      by (rule power_int_diff) simp
    moreover have "bitlen p - (bitlen q - 1) = ?d + 1" by simp
    ultimately show ?thesis by simp
  qed
  finally have hi: "x < 2 powi (?d + 1)" .
  have "(2::rat) powi (?d - 1) = 2 powi (bitlen p - 1) / 2 powi (bitlen q)"
  proof -
    have "(2::rat) powi (bitlen p - 1 - bitlen q) = 2 powi (bitlen p - 1) / 2 powi (bitlen q)"
      by (rule power_int_diff) simp
    moreover have "bitlen p - 1 - bitlen q = ?d - 1" by simp
    ultimately show ?thesis by simp
  qed
  also have "\<dots> \<le> of_int p / 2 powi (bitlen q)"
    using pow2_bitlen(1) [OF p] by (intro divide_right_mono) simp_all
  also have "\<dots> \<le> x"
    unfolding x
  proof (rule divide_left_mono)
    show "(of_int q :: rat) \<le> 2 powi bitlen q" using pow2_bitlen(2) [OF q] by simp
    show "(0::rat) \<le> of_int p" using p by simp
    show "0 < (2::rat) powi bitlen q * of_int q" using qpos by simp
  qed
  finally have lo: "2 powi (?d - 1) \<le> x" .
  show "2 powi expo x \<le> x" using lo by (simp add: e)
  show "x < 2 powi (expo x + 1)" using hi by (auto simp: e not_le)
qed

lemma expo_less:
  assumes "0 < x" and "x < 2 powi E"
  shows "expo x < E"
proof (rule ccontr)
  assume "\<not> expo x < E"
  then have "(2::rat) powi E \<le> 2 powi expo x" by (intro power_int_increasing) simp_all
  also have "\<dots> \<le> x" using assms(1) by (rule expo_bounds)
  finally show False using assms(2) by simp
qed


lemma fl_nonneg:
  assumes "0 \<le> x"
  shows "0 \<le> fl x"
proof (cases "x = 0")
  case True
  then show ?thesis by (simp add: fl_def)
next
  case False
  let ?u = "(2::rat) powi (max (expo x) (- 1022) - 52)"
  have u: "0 < ?u" by simp
  with assms have "0 \<le> x / ?u" by simp
  then have "0 \<le> round_even (x / ?u)" by (rule round_even_nonneg)
  with u False show ?thesis by (simp add: fl_def Let_def)
qed

lemma fl_grid:
  assumes "x \<noteq> 0" and "x \<le> of_int N * 2 powi (max (expo x) (- 1022) - 52)"
  shows "fl x \<le> of_int N * 2 powi (max (expo x) (- 1022) - 52)"
proof -
  let ?u = "(2::rat) powi (max (expo x) (- 1022) - 52)"
  have u: "0 < ?u" by simp
  from assms(2) u have "x / ?u \<le> of_int N" by (simp add: pos_divide_le_eq)
  then have "round_even (x / ?u) \<le> N" by (rule round_even_le)
  then have "(of_int (round_even (x / ?u)) :: rat) \<le> of_int N" by simp
  with u have "of_int (round_even (x / ?u)) * ?u \<le> of_int N * ?u"
    by (intro mult_right_mono) simp_all
  with assms(1) show ?thesis by (simp add: fl_def Let_def)
qed

lemma pow2_split: "(2::rat) powi (k + 1) = 9007199254740992 * 2 powi (k - 52)"
proof -
  have "k + 1 = 53 + (k - 52)" by simp
  then have "(2::rat) powi (k + 1) = 2 powi (53 + (k - 52))" by (rule arg_cong)
  also have "\<dots> = 2 powi 53 * 2 powi (k - 52)" by (rule power_int_add) simp
  finally show ?thesis by simp
qed

lemma fl_le_repr:
  assumes "0 \<le> x" and "x \<le> r" and "r = of_int N * 2 powi (E - 52)"
    and "2 powi E \<le> r" and "r < 2 powi (E + 1)" and "- 1022 \<le> E"
  shows "fl x \<le> r"
proof (cases "x = 0")
  case True
  with assms show ?thesis by (simp add: fl_def)
next
  case False
  with assms(1) have pos: "0 < x" by simp
  let ?e = "max (expo x) (- 1022)"
  show ?thesis
  proof (cases "?e < E")
    case True
    have "x < 2 powi (expo x + 1)" using pos by (rule expo_bounds)
    also have "\<dots> \<le> 2 powi (?e + 1)" by (intro power_int_increasing) simp_all
    also have "\<dots> = of_int 9007199254740992 * 2 powi (?e - 52)"
      by (simp add: pow2_split)
    finally have "x \<le> of_int 9007199254740992 * 2 powi (?e - 52)" by simp
    with False have "fl x \<le> of_int 9007199254740992 * 2 powi (?e - 52)" by (rule fl_grid)
    also have "\<dots> = 2 powi (?e + 1)"
      by (simp add: pow2_split)
    also have "\<dots> \<le> 2 powi E"
    proof (rule power_int_increasing)
      show "?e + 1 \<le> E" using True by linarith
      show "(1::rat) \<le> 2" by simp
    qed
    finally show ?thesis using assms(4) by simp
  next
    case False
    have "expo x \<le> E"
    proof (rule ccontr)
      assume "\<not> expo x \<le> E"
      then have "E + 1 \<le> expo x" by simp
      then have "(2::rat) powi (E + 1) \<le> 2 powi expo x" by (intro power_int_increasing) simp_all
      also have "\<dots> \<le> x" using pos by (rule expo_bounds)
      also have "\<dots> \<le> r" by (rule assms(2))
      finally have "(2::rat) powi (E + 1) \<le> r" .
      with assms(5) show False by simp
    qed
    with False assms(6) have e: "?e = E" by linarith
    from assms(2,3) have "x \<le> of_int N * 2 powi (?e - 52)" by (simp add: e)
    with \<open>x \<noteq> 0\<close> have "fl x \<le> of_int N * 2 powi (?e - 52)" by (rule fl_grid)
    then show ?thesis by (simp add: e assms(3))
  qed
qed

lemma fl_le_1:
  assumes "0 \<le> x" and "x \<le> 1"
  shows "fl x \<le> 1"
  using assms by (rule fl_le_repr [where N = "4503599627370496" and E = 0]) (simp_all add: power_int_def power_one_over)

lemma fl_le_100:
  assumes "0 \<le> x" and "x \<le> 100"
  shows "fl x \<le> 100"
  using assms by (rule fl_le_repr [where N = "7036874417766400" and E = 6]) (simp_all add: power_int_def power_one_over)

lemma fl_le_below_1:
  assumes "0 \<le> x" and "x \<le> 4294967295 / 4294967296"
  shows "fl x \<le> 4294967295 / 4294967296"
  using assms by (rule fl_le_repr [where N = "9007199252643840" and E = "- 1"]) (simp_all add: power_int_def power_one_over)

lemma fl_le_below_100:
  assumes "0 \<le> x" and "x \<le> 100 * (4294967295 / 4294967296)"
  shows "fl x \<le> 100 * (4294967295 / 4294967296)"
  using assms by (rule fl_le_repr [where N = "7036874416128000" and E = 6]) (simp_all add: power_int_def power_one_over)

lemma fl_1: "fl 1 = 1"
  by code_simp

lemma fl_100: "fl 100 = 100"
  by code_simp

lemma percent_nonneg: "0 \<le> percent a n"
  unfolding percent_def dbl_mul_def dbl_div_def
  by (intro fl_nonneg mult_nonneg_nonneg) simp_all

lemma percent_le_100:
  assumes "a \<le> n"
  shows "percent a n \<le> 100"
proof -
  have q: "(0::rat) \<le> of_nat a / of_nat n" by simp
  have "(of_nat a :: rat) / of_nat n \<le> 1" using assms by (auto simp: divide_le_eq_1)
  with q have y: "fl (of_nat a / of_nat n) \<le> 1" by (rule fl_le_1)
  have y0: "0 \<le> fl (of_nat a / of_nat n)" using q by (rule fl_nonneg)
  from y0 have "0 \<le> fl (of_nat a / of_nat n) * 100" by simp
  moreover from y have "fl (of_nat a / of_nat n) * 100 \<le> 100" by simp
  ultimately show ?thesis
    unfolding percent_def dbl_mul_def dbl_div_def by (rule fl_le_100)
qed

lemma percent_full:
  assumes "0 < n"
  shows "percent n n = 100"
  using assms by (simp add: percent_def dbl_mul_def dbl_div_def fl_1 fl_100)

lemma percent_less_100:
  assumes "a < n" and "n < 2 ^ 32"
  shows "percent a n < 100"
proof -
  let ?B = "4294967295 / 4294967296 :: rat"
  have q0: "(0::rat) \<le> of_nat a / of_nat n" by simp
  have npos: "(0::rat) < of_nat n" using assms(1) by simp
  have "(of_nat a :: rat) \<le> of_nat n - 1"
  proof -
    from assms(1) have "a + 1 \<le> n" by simp
    then have "(of_nat (a + 1) :: rat) \<le> of_nat n" by (simp only: of_nat_le_iff)
    then show ?thesis by simp
  qed
  then have "(of_nat a :: rat) / of_nat n \<le> (of_nat n - 1) / of_nat n"
    using npos by (simp add: divide_right_mono)
  also have "\<dots> = 1 - 1 / of_nat n" using npos by (simp add: diff_divide_distrib)
  also have "\<dots> \<le> ?B"
  proof -
    from assms(2) have "(of_nat n :: rat) \<le> of_nat (2 ^ 32)" by (simp only: of_nat_le_iff)
    then have "(of_nat n :: rat) \<le> 4294967296" by simp
    with npos have "1 / 4294967296 \<le> 1 / (of_nat n :: rat)" by (intro divide_left_mono) simp_all
    then show ?thesis by simp
  qed
  finally have "(of_nat a :: rat) / of_nat n \<le> ?B" .
  with q0 have y: "fl (of_nat a / of_nat n) \<le> ?B" by (rule fl_le_below_1)
  have y0: "0 \<le> fl (of_nat a / of_nat n)" using q0 by (rule fl_nonneg)
  from y0 have "0 \<le> fl (of_nat a / of_nat n) * 100" by simp
  moreover from y have "fl (of_nat a / of_nat n) * 100 \<le> 100 * ?B" by simp
  ultimately have "percent a n \<le> 100 * ?B"
    unfolding percent_def dbl_mul_def dbl_div_def by (rule fl_le_below_100)
  then show ?thesis by simp
qed

lemma percent_eq_100_iff:
  assumes "a \<le> n" and "0 < n" and "n < 2 ^ 32"
  shows "percent a n = 100 \<longleftrightarrow> a = n"
  using assms percent_full [of n] percent_less_100 [of a n] by (cases "a = n") auto

lemma round_even_near: "\<bar>of_int (round_even q) - q\<bar> \<le> 1 / 2"
proof -
  let ?f = "of_int \<lfloor>q\<rfloor> :: rat"
  have lo: "?f \<le> q" by (rule of_int_floor_le)
  have hi: "q < ?f + 1" by linarith
  consider "q - ?f < 1 / 2" | "1 / 2 < q - ?f" | "q - ?f = 1 / 2" by linarith
  then show ?thesis
  proof cases
    case 1
    then have r: "round_even q = \<lfloor>q\<rfloor>" by (simp add: round_even_def Let_def)
    show ?thesis unfolding r using 1 lo by linarith
  next
    case 2
    then have "round_even q = \<lfloor>q\<rfloor> + 1" by (simp add: round_even_def Let_def)
    then have r: "(of_int (round_even q) :: rat) = ?f + 1" by simp
    show ?thesis unfolding r using 2 hi by linarith
  next
    case 3
    then have "round_even q = \<lfloor>q\<rfloor> \<or> round_even q = \<lfloor>q\<rfloor> + 1"
      by (simp add: round_even_def Let_def)
    then have "(of_int (round_even q) :: rat) = ?f \<or> (of_int (round_even q) :: rat) = ?f + 1"
      by auto
    then show ?thesis
    proof
      assume r: "(of_int (round_even q) :: rat) = ?f"
      show ?thesis unfolding r using 3 by linarith
    next
      assume r: "(of_int (round_even q) :: rat) = ?f + 1"
      show ?thesis unfolding r using 3 by linarith
    qed
  qed
qed

lemma fl_near:
  assumes "0 < x" and "x < 2 powi (E + 1)" and "- 1022 \<le> E"
  shows "\<bar>fl x - x\<bar> \<le> 2 powi (E - 53)"
proof -
  let ?e = "max (expo x) (- 1022)"
  let ?u = "(2::rat) powi (?e - 52)"
  have u: "0 < ?u" by simp
  from assms(1,2) have "expo x < E + 1" by (rule expo_less)
  with assms(3) have "?e - 52 \<le> E - 52" by linarith
  then have ule: "?u \<le> 2 powi (E - 52)" by (intro power_int_increasing) simp_all
  have half: "(2::rat) powi (E - 52) = 2 * 2 powi (E - 53)"
  proof -
    have "E - 52 = 1 + (E - 53)" by simp
    then have "(2::rat) powi (E - 52) = 2 powi (1 + (E - 53))" by (rule arg_cong)
    also have "\<dots> = 2 powi 1 * 2 powi (E - 53)" by (rule power_int_add) simp
    finally show ?thesis by simp
  qed
  from assms(1) have "fl x = of_int (round_even (x / ?u)) * ?u" by (simp add: fl_def Let_def)
  moreover have "x = x / ?u * ?u" using u by simp
  ultimately have "fl x - x = (of_int (round_even (x / ?u)) - x / ?u) * ?u"
    by (simp only: left_diff_distrib) 
  then have "\<bar>fl x - x\<bar> = \<bar>of_int (round_even (x / ?u)) - x / ?u\<bar> * ?u"
    using u by (simp only: abs_mult abs_of_pos)
  also have "\<dots> \<le> 1 / 2 * ?u"
    using round_even_near u by (intro mult_right_mono) simp_all
  also have "\<dots> \<le> 1 / 2 * 2 powi (E - 52)" using ule by simp
  also have "\<dots> = 2 powi (E - 53)" by (simp add: half)
  finally show ?thesis .
qed

lemma fl_0: "fl 0 = 0"
  by (simp add: fl_def)

lemma percent_near:
  assumes "a \<le> n" and "0 < n"
  shows "\<bar>percent a n - of_nat a / of_nat n * 100\<bar> \<le> 1 / 2 ^ 45"
proof (cases "a = 0")
  case True
  then show ?thesis by (simp add: percent_def dbl_mul_def dbl_div_def fl_0)
next
  case False
  let ?x = "of_nat a / of_nat n :: rat"
  let ?y = "fl ?x"
  from False assms(2) have x0: "0 < ?x" by simp
  have x1: "?x \<le> 1" using assms by (auto simp: divide_le_eq_1)
  then have "?x < 2 powi (0 + 1)" by simp
  with x0 have "\<bar>?y - ?x\<bar> \<le> 2 powi (0 - 53)" by (rule fl_near) simp
  then have d1: "\<bar>?y - ?x\<bar> \<le> 1 / 2 ^ 53" by (simp add: power_int_def power_one_over)
  have y0: "0 \<le> ?y" using x0 by (intro fl_nonneg) simp
  have y1: "?y \<le> 1" using x0 x1 by (intro fl_le_1) simp_all
  have d2: "\<bar>fl (?y * 100) - ?y * 100\<bar> \<le> 1 / 2 ^ 47"
  proof (cases "?y = 0")
    case True
    then show ?thesis by (simp add: fl_0)
  next
    case False
    with y0 have "0 < ?y * 100" by simp
    moreover from y1 have "?y * 100 < 2 powi (6 + 1)" by simp
    ultimately have "\<bar>fl (?y * 100) - ?y * 100\<bar> \<le> 2 powi (6 - 53)" by (rule fl_near) simp
    then show ?thesis by (simp add: power_int_def power_one_over)
  qed
  have "fl (?y * 100) - ?x * 100 = (fl (?y * 100) - ?y * 100) + (?y - ?x) * 100"
    by (simp add: algebra_simps)
  then have "\<bar>fl (?y * 100) - ?x * 100\<bar>
               \<le> \<bar>fl (?y * 100) - ?y * 100\<bar> + \<bar>(?y - ?x) * 100\<bar>"
    by (simp only: abs_triangle_ineq)
  also have "\<dots> = \<bar>fl (?y * 100) - ?y * 100\<bar> + \<bar>?y - ?x\<bar> * 100"
    by (simp only: abs_mult abs_numeral)
  also have "\<dots> \<le> 1 / 2 ^ 47 + 1 / 2 ^ 53 * 100"
    using d1 d2 by (intro add_mono mult_right_mono) simp_all
  also have "\<dots> \<le> 1 / 2 ^ 45" by simp
  finally show ?thesis by (simp add: percent_def dbl_mul_def dbl_div_def)
qed





section \<open>Properties of the string functions\<close>

lemma occurs_at_beyond:
  assumes "length s < j" and "pat \<noteq> []"
  shows "\<not> occurs_at s pat j"
  using assms by (auto simp: occurs_at_def)

lemma last_from_None:
  "last_from s pat k = None \<longleftrightarrow> (\<forall>j \<le> k. \<not> occurs_at s pat j)"
  by (induction k) (auto simp: le_Suc_eq)

lemma last_from_Some:
  "last_from s pat k = Some i \<longleftrightarrow>
     i \<le> k \<and> occurs_at s pat i \<and> (\<forall>j. i < j \<and> j \<le> k \<longrightarrow> \<not> occurs_at s pat j)"
proof (induction k)
  case 0
  then show ?case by auto
next
  case (Suc k)
  show ?case
  proof (cases "occurs_at s pat (Suc k)")
    case True
    show ?thesis
    proof (cases "i = Suc k")
      case True
      with \<open>occurs_at s pat (Suc k)\<close> show ?thesis by auto
    next
      case False
      have "\<not> (i \<le> Suc k \<and> (\<forall>j. i < j \<and> j \<le> Suc k \<longrightarrow> \<not> occurs_at s pat j))"
      proof
        assume h: "i \<le> Suc k \<and> (\<forall>j. i < j \<and> j \<le> Suc k \<longrightarrow> \<not> occurs_at s pat j)"
        with False have "i < Suc k" by simp
        with h \<open>occurs_at s pat (Suc k)\<close> show False by blast
      qed
      with False \<open>occurs_at s pat (Suc k)\<close> show ?thesis by auto
    qed
  next
    case False
    then show ?thesis
      using Suc by (auto simp: le_Suc_eq)
  qed
qed

lemma lastIndexOf_None: "lastIndexOf s pat = None \<longleftrightarrow> no_occurrence s pat"
  by (auto simp: lastIndexOf_def last_from_None no_occurrence_def)

lemma ball_upt_Suc:
  "(\<forall>j \<in> set [Suc i ..< Suc n]. P j) \<longleftrightarrow> (\<forall>j. i < j \<and> j \<le> n \<longrightarrow> P j)"
  by (auto simp: less_Suc_eq_le Suc_le_eq)

lemma lastIndexOf_Some:
  "lastIndexOf s pat = Some i \<longleftrightarrow> i \<le> length s \<and> is_last_occurrence s pat i"
  unfolding lastIndexOf_def last_from_Some is_last_occurrence_def ball_upt_Suc by blast

lemma occurs_at_append: "occurs_at (xs @ pat @ ys) pat (length xs)"
  by (simp add: occurs_at_def)

lemma endsWith_append: "endsWith (xs @ suf) suf"
  by (simp add: endsWith_def)

lemma slice_neg_append: "suf \<noteq> [] \<Longrightarrow> slice_neg (xs @ suf) (length suf) = xs"
  by (simp add: slice_neg_def)

lemma occurs_at_less:
  assumes "occurs_at s pat i" and "pat \<noteq> []"
  shows "i < length s"
proof (rule ccontr)
  assume "\<not> i < length s"
  then have "drop i s = []" by simp
  with assms show False by (simp add: occurs_at_def)
qed

section \<open>The filename parser\<close>

text \<open>
  C2, amended. For a configuration whose required extension is not the empty string, a
  filename \<open>kitName - tag.ext\<close> in which the separator written between \<open>kitName\<close> and
  \<open>tag\<close> is the last occurrence of \<open>" - "\<close>, and whose tag, trimmed and then lower-cased,
  is in the instrument vocabulary, is parsed to exactly the pair of the trimmed kit name
  (everything before that last separator) and the trimmed, lower-cased tag. The witness
  is the file \<open>Weird - Kit - hihat.wav\<close>, split at its last separator, and a file whose
  kit name and tag carry surrounding spaces and upper-case letters.
\<close>

theorem parseFilename_valid:
  assumes "fileExtension cfg \<noteq> []"
    and "is_last_occurrence (kitName @ '' - '' @ tag) '' - '' (length kitName)"
    and "toLowerCase (trim tag) \<in> set (instruments cfg)"
  shows "parseFilename cfg (kitName @ '' - '' @ tag @ fileExtension cfg)
           = Some (trim kitName, toLowerCase (trim tag))"
proof -
  let ?base = "kitName @ '' - '' @ tag"
  let ?file = "kitName @ '' - '' @ tag @ fileExtension cfg"
  have fl: "?file = ?base @ fileExtension cfg" by simp
  have ends: "endsWith ?file (fileExtension cfg)"
    unfolding fl by (rule endsWith_append)
  have base: "slice_neg ?file (length (fileExtension cfg)) = ?base"
    unfolding fl using assms(1) by (rule slice_neg_append)
  have idx: "lastIndexOf ?base '' - '' = Some (length kitName)"
    using assms(2) by (simp add: lastIndexOf_Some)
  have before: "take (length kitName) ?base = kitName" by simp
  have after: "drop (length kitName + 3) ?base = tag" by simp
  show ?thesis
    unfolding parseFilename_def Let_def base idx option.case before after
    using ends assms(3) by simp
qed

theorem parseFilename_valid_witness:
  "fileExtension CONFIG \<noteq> [] \<and>
   is_last_occurrence (''Weird - Kit'' @ '' - '' @ ''hihat'') '' - '' (length ''Weird - Kit'') \<and>
   toLowerCase (trim ''hihat'') \<in> set (instruments CONFIG) \<and>
   parseFilename CONFIG ''Weird - Kit - hihat.wav'' = Some (''Weird - Kit'', ''hihat'') \<and>
   is_last_occurrence (''  Weird - Kit '' @ '' - '' @ '' HiHat '') '' - ''
     (length ''  Weird - Kit '') \<and>
   toLowerCase (trim '' HiHat '') \<in> set (instruments CONFIG) \<and>
   parseFilename CONFIG ''  Weird - Kit  -  HiHat .wav'' = Some (''Weird - Kit'', ''hihat'')"
proof -
  have h1: "fileExtension CONFIG \<noteq> []" by (simp add: CONFIG_def)
  have h2: "is_last_occurrence (''Weird - Kit'' @ '' - '' @ ''hihat'') '' - ''
              (length ''Weird - Kit'')"
    by code_simp
  have h3: "toLowerCase (trim ''hihat'') \<in> set (instruments CONFIG)" by code_simp
  have e1: "''Weird - Kit'' @ '' - '' @ ''hihat'' @ fileExtension CONFIG
              = ''Weird - Kit - hihat.wav''"
    by (simp add: CONFIG_def)
  have e2: "trim ''Weird - Kit'' = ''Weird - Kit''" by code_simp
  have e3: "toLowerCase (trim ''hihat'') = ''hihat''" by code_simp
  have g2: "is_last_occurrence (''  Weird - Kit '' @ '' - '' @ '' HiHat '') '' - ''
              (length ''  Weird - Kit '')"
    by code_simp
  have g3: "toLowerCase (trim '' HiHat '') \<in> set (instruments CONFIG)" by code_simp
  have f1: "''  Weird - Kit '' @ '' - '' @ '' HiHat '' @ fileExtension CONFIG
              = ''  Weird - Kit  -  HiHat .wav''"
    by (simp add: CONFIG_def)
  have f2: "trim ''  Weird - Kit '' = ''Weird - Kit''" by code_simp
  have f3: "toLowerCase (trim '' HiHat '') = ''hihat''" by code_simp
  have plain: "parseFilename CONFIG ''Weird - Kit - hihat.wav'' = Some (''Weird - Kit'', ''hihat'')"
    using parseFilename_valid [OF h1 h2 h3] unfolding e1 e2 e3 .
  have padded: "parseFilename CONFIG ''  Weird - Kit  -  HiHat .wav''
                  = Some (''Weird - Kit'', ''hihat'')"
    using parseFilename_valid [OF h1 g2 g3] unfolding f1 f2 f3 .
  show ?thesis by (intro conjI h1 h2 h3 plain g2 g3 padded)
qed

text \<open>
  C3. \<open>parseFilename\<close> is total and returns \<open>None\<close> (the \<open>null\<close> of the source, no
  exception) for a filename that does not end in the required extension (an exact,
  case-sensitive comparison of the suffix), for one whose extension-stripped form has no
  separator \<open>" - "\<close>, and for one whose segment after the last separator, trimmed and
  lower-cased, is not in the vocabulary.
\<close>

theorem parseFilename_rejects:
  "(\<not> endsWith filename (fileExtension cfg) \<longrightarrow> parseFilename cfg filename = None) \<and>
   (no_occurrence (slice_neg filename (length (fileExtension cfg))) '' - ''
      \<longrightarrow> parseFilename cfg filename = None) \<and>
   (is_last_occurrence (slice_neg filename (length (fileExtension cfg))) '' - '' i \<and>
    toLowerCase (trim (drop (i + 3) (slice_neg filename (length (fileExtension cfg)))))
      \<notin> set (instruments cfg)
      \<longrightarrow> parseFilename cfg filename = None)"
proof (intro conjI impI)
  assume "\<not> endsWith filename (fileExtension cfg)"
  then show "parseFilename cfg filename = None"
    by (simp add: parseFilename_def)
next
  assume "no_occurrence (slice_neg filename (length (fileExtension cfg))) '' - ''"
  then have "lastIndexOf (slice_neg filename (length (fileExtension cfg))) '' - '' = None"
    by (simp only: lastIndexOf_None)
  then show "parseFilename cfg filename = None"
    by (simp add: parseFilename_def)
next
  let ?base = "slice_neg filename (length (fileExtension cfg))"
  assume h: "is_last_occurrence ?base '' - '' i \<and>
    toLowerCase (trim (drop (i + 3) ?base)) \<notin> set (instruments cfg)"
  then have "occurs_at ?base '' - '' i" by (simp add: is_last_occurrence_def)
  then have "i < length ?base" by (rule occurs_at_less) simp
  with h have "lastIndexOf ?base '' - '' = Some i" by (simp add: lastIndexOf_Some)
  with h show "parseFilename cfg filename = None"
    by (simp add: parseFilename_def)
qed

theorem parseFilename_rejects_witness:
  "parseFilename CONFIG ''Batman Begins - kick.WAV'' = None \<and>
   parseFilename CONFIG ''Odd File.wav'' = None \<and>
   parseFilename CONFIG ''Batman Begins - Cowbell.wav'' = None"
proof -
  have a: "\<not> endsWith ''Batman Begins - kick.WAV'' (fileExtension CONFIG)" by code_simp
  have b: "no_occurrence (slice_neg ''Odd File.wav'' (length (fileExtension CONFIG))) '' - ''"
    by code_simp
  have c: "is_last_occurrence
             (slice_neg ''Batman Begins - Cowbell.wav'' (length (fileExtension CONFIG))) '' - '' 13 \<and>
           toLowerCase (trim (drop (13 + 3)
             (slice_neg ''Batman Begins - Cowbell.wav'' (length (fileExtension CONFIG)))))
           \<notin> set (instruments CONFIG)"
    by code_simp
  from a b c
    parseFilename_rejects [of "''Batman Begins - kick.WAV''" CONFIG 0]
    parseFilename_rejects [of "''Odd File.wav''" CONFIG 0]
    parseFilename_rejects [of "''Batman Begins - Cowbell.wav''" CONFIG 13]
  show ?thesis by blast
qed

section \<open>The slug\<close>

lemma hyphen_not_alnum: "\<not> is_alnum CHR ''-''"
  by (simp add: is_alnum_def)

lemma replace_runs_alnum_prefix:
  "\<forall>x \<in> set w. is_alnum x \<Longrightarrow> replace_runs (w @ rest) = w @ replace_runs rest"
  by (induction w) auto

lemma words_of_skip: "words_of (dropWhile (\<lambda>x. \<not> is_alnum x) s) = words_of s"
proof -
  have "words_of (dropWhile (\<lambda>x. \<not> is_alnum x) s) =
        (case dropWhile (\<lambda>x. \<not> is_alnum x) (dropWhile (\<lambda>x. \<not> is_alnum x) s) of
           [] \<Rightarrow> []
         | c # cs \<Rightarrow> takeWhile is_alnum (c # cs) # words_of (dropWhile is_alnum cs))"
    by (rule words_of.simps)
  also have "\<dots> = words_of s"
    by (simp only: dropWhile_idem words_of.simps [symmetric])
  finally show ?thesis .
qed

lemma words_of_Nil [simp]: "words_of [] = []"
  by (simp add: words_of.simps)

lemma words_of_alnum:
  assumes "is_alnum c"
  shows "words_of (c # cs) = takeWhile is_alnum (c # cs) # words_of (dropWhile is_alnum cs)"
  using assms by (subst words_of.simps) simp

lemma words_of_bad:
  assumes "\<not> is_alnum c"
  shows "words_of (c # cs) = words_of cs"
proof -
  have "words_of (c # cs) = words_of (dropWhile (\<lambda>x. \<not> is_alnum x) (c # cs))"
    by (rule words_of_skip [symmetric])
  also have "\<dots> = words_of (dropWhile (\<lambda>x. \<not> is_alnum x) cs)" using assms by simp
  also have "\<dots> = words_of cs" by (rule words_of_skip)
  finally show ?thesis .
qed

lemma words_of_empty_iff: "words_of s = [] \<longleftrightarrow> (\<forall>x \<in> set s. \<not> is_alnum x)"
proof (induction s)
  case Nil
  then show ?case by simp
next
  case (Cons c cs)
  then show ?case
    by (cases "is_alnum c") (auto simp: words_of_alnum words_of_bad)
qed

lemma words_of_wellformed:
  "w \<in> set (words_of s) \<Longrightarrow> w \<noteq> [] \<and> (\<forall>x \<in> set w. is_alnum x)"
proof (induction s arbitrary: w rule: length_induct)
  case (1 s)
  show ?case
  proof (cases s)
    case Nil
    with "1.prems" show ?thesis by simp
  next
    case (Cons c cs)
    show ?thesis
    proof (cases "is_alnum c")
      case True
      have len: "length (dropWhile is_alnum cs) < length s"
        using Cons by (simp add: le_imp_less_Suc length_dropWhile_le)
      from "1.prems" True Cons
      consider "w = takeWhile is_alnum (c # cs)" | "w \<in> set (words_of (dropWhile is_alnum cs))"
        by (auto simp: words_of_alnum)
      then show ?thesis
      proof cases
        case 1
        with True show ?thesis by (auto dest: set_takeWhileD)
      next
        case 2
        with "1.IH" len show ?thesis by blast
      qed
    next
      case False
      with "1.prems" Cons have "w \<in> set (words_of cs)" by (simp add: words_of_bad)
      moreover have "length cs < length s" using Cons by simp
      ultimately show ?thesis using "1.IH" by blast
    qed
  qed
qed

lemma join_with_edges:
  assumes "ws \<noteq> []" and "\<forall>w \<in> set ws. w \<noteq> [] \<and> (\<forall>x \<in> set w. is_alnum x)"
  shows "join_with ''-'' ws \<noteq> [] \<and> is_alnum (hd (join_with ''-'' ws))
         \<and> is_alnum (last (join_with ''-'' ws))"
  using assms
proof (induction "''-''" ws rule: join_with.induct)
  case 1
  then show ?case by simp
next
  case (2 w)
  then show ?case by simp
next
  case (3 w v ws)
  then have "join_with ''-'' (v # ws) \<noteq> [] \<and> is_alnum (last (join_with ''-'' (v # ws)))"
    by simp
  moreover from "3.prems" have "w \<noteq> [] \<and> is_alnum (hd w)" by simp
  ultimately show ?case by simp
qed


lemma replace_runs_all_bad:
  "s \<noteq> [] \<Longrightarrow> \<forall>x \<in> set s. \<not> is_alnum x \<Longrightarrow> replace_runs s = ''-''"
proof -
  assume ne: "s \<noteq> []" and bad: "\<forall>x \<in> set s. \<not> is_alnum x"
  from ne obtain c cs where s: "s = c # cs" by (cases s) auto
  from bad s have d: "dropWhile (\<lambda>x. \<not> is_alnum x) cs = []"
    by (simp add: dropWhile_eq_Nil_conv)
  from bad s have "replace_runs s = CHR ''-'' # replace_runs (dropWhile (\<lambda>x. \<not> is_alnum x) cs)"
    by simp
  then show ?thesis unfolding d by simp
qed

lemma replace_runs_shape:
  "words_of s \<noteq> [] \<Longrightarrow>
     replace_runs s = lead s @ join_with ''-'' (words_of s) @ trail s"
proof (induction s rule: length_induct)
  case (1 s)
  from "1.prems" obtain c cs where s: "s = c # cs" by (cases s) auto
  show ?case
  proof (cases "is_alnum c")
    case False
    let ?s0 = "dropWhile (\<lambda>x. \<not> is_alnum x) cs"
    have w0: "words_of ?s0 = words_of s"
      using False s words_of_skip [of s] by simp
    have ne: "?s0 \<noteq> []"
    proof
      assume e: "?s0 = []"
      have "words_of ?s0 = []" unfolding e by simp
      with w0 "1.prems" show False by simp
    qed
    then have alnum0: "is_alnum (hd ?s0)" using hd_dropWhile [of "\<lambda>x. \<not> is_alnum x" cs] by simp
    have "length ?s0 < length s" using s by (simp add: le_imp_less_Suc length_dropWhile_le)
    with "1.IH" w0 "1.prems" have
      "replace_runs ?s0 = lead ?s0 @ join_with ''-'' (words_of ?s0) @ trail ?s0" by simp
    moreover have "lead ?s0 = []" using alnum0 by (simp add: lead_def)
    moreover have "trail ?s0 = trail s"
    proof -
      have "last ?s0 = last cs" using ne
        by (metis append_Nil2 last_appendR takeWhile_dropWhile_id)
      moreover have "cs \<noteq> []" using ne by auto
      ultimately show ?thesis using ne s by (simp add: trail_def)
    qed
    moreover have "replace_runs s = CHR ''-'' # replace_runs ?s0" using False s by simp
    moreover have "lead s = ''-''" using False s by (simp add: lead_def)
    ultimately show ?thesis using w0 by simp
  next
    case True
    let ?w = "takeWhile is_alnum s"
    let ?rest = "dropWhile is_alnum s"
    have split: "s = ?w @ ?rest" by simp
    have rest_cs: "?rest = dropWhile is_alnum cs" using True s by simp
    have wne: "?w \<noteq> []" using True s by simp
    have rr: "replace_runs s = ?w @ replace_runs ?rest"
      using replace_runs_alnum_prefix [of ?w ?rest] by (auto dest: set_takeWhileD)
    have ws: "words_of s = ?w # words_of ?rest"
      using True s by (simp add: words_of_alnum)
    have lead_s: "lead s = []" using True s by (simp add: lead_def)
    show ?thesis
    proof (cases "?rest = []")
      case empty: True
      then have "\<forall>x \<in> set s. is_alnum x" by (simp add: dropWhile_eq_Nil_conv)
      then have "is_alnum (last s)" using s by (metis last_in_set list.distinct(1))
      then have tr: "trail s = []" by (simp add: trail_def)
      have "replace_runs s = ?w" using rr unfolding empty by simp
      moreover have "words_of s = [?w]" using ws unfolding empty by simp
      ultimately show ?thesis by (simp only: lead_s tr join_with.simps append_Nil append_Nil2)
    next
      case False
      have bad_hd: "\<not> is_alnum (hd ?rest)" using False hd_dropWhile [of is_alnum s] by simp
      have last_eq: "last s = last ?rest" using False split by (metis last_appendR)
      have tr: "trail s = trail ?rest" using False last_eq s by (simp add: trail_def)
      show ?thesis
      proof (cases "words_of ?rest = []")
        case True
        then have allbad: "\<forall>x \<in> set ?rest. \<not> is_alnum x" by (simp add: words_of_empty_iff)
        with False have "replace_runs ?rest = ''-''" by (rule replace_runs_all_bad)
        moreover have "trail ?rest = ''-''"
          using False allbad by (simp add: trail_def)
        ultimately show ?thesis using rr ws True lead_s tr by simp
      next
        case nonempty: False
        have "length ?rest < length s"
          using s rest_cs by (simp add: le_imp_less_Suc length_dropWhile_le)
        with "1.IH" nonempty have
          "replace_runs ?rest = lead ?rest @ join_with ''-'' (words_of ?rest) @ trail ?rest"
          by blast
        moreover have "lead ?rest = ''-''" using False bad_hd by (simp add: lead_def)
        moreover obtain v vs where "words_of ?rest = v # vs" using nonempty by (cases "words_of ?rest") auto
        ultimately show ?thesis using rr ws lead_s tr by simp
      qed
    qed
  qed
qed

lemma strip_edges_shape:
  assumes "J \<noteq> []" "is_alnum (hd J)" "is_alnum (last J)"
    and "p = [] \<or> p = ''-''" and "t = [] \<or> t = ''-''"
  shows "strip_edges (p @ J @ t) = J"
proof -
  obtain c cs where J: "J = c # cs" using assms(1) by (cases J) auto
  have c: "c \<noteq> CHR ''-''" using assms(2) J hyphen_not_alnum by auto
  have l: "last J \<noteq> CHR ''-''" using assms(3) hyphen_not_alnum by auto
  have first: "(case p @ J @ t of [] \<Rightarrow> [] | c # cs \<Rightarrow> if c = CHR ''-'' then cs else p @ J @ t)
                 = J @ t"
    using assms(4) J c by auto
  show ?thesis
    unfolding strip_edges_def first Let_def
    using assms(1,5) l by auto
qed

lemma generateId_is_slug: "strip_edges (replace_runs s) = join_with ''-'' (words_of s)"
proof (cases "words_of s = []")
  case True
  then have allbad: "\<forall>x \<in> set s. \<not> is_alnum x" by (simp add: words_of_empty_iff)
  have "replace_runs s = [] \<or> replace_runs s = ''-''"
    using allbad replace_runs_all_bad [of s] by (cases "s = []") auto
  then have "strip_edges (replace_runs s) = []"
    by (auto simp: strip_edges_def)
  with True show ?thesis by simp
next
  case False
  let ?J = "join_with ''-'' (words_of s)"
  have "?J \<noteq> [] \<and> is_alnum (hd ?J) \<and> is_alnum (last ?J)"
    using False words_of_wellformed by (intro join_with_edges) auto
  moreover have "lead s = [] \<or> lead s = ''-''" by (simp add: lead_def)
  moreover have "trail s = [] \<or> trail s = ''-''" by (simp add: trail_def)
  ultimately have "strip_edges (lead s @ ?J @ trail s) = ?J"
    by (intro strip_edges_shape) auto
  with False show ?thesis by (simp add: replace_runs_shape)
qed

text \<open>
  C6. The id of a kit is a function of its name alone: lower-case the name, replace every
  maximal run of characters outside \<open>[a-z0-9]\<close> by one hyphen, strip one hyphen at
  the start and one at the end. The result is the slug of the data model: the maximal
  runs of \<open>[a-z0-9]\<close> of the lower-cased name, joined by single hyphens. The name
  \<open>Batman Begins\<close> gives \<open>batman-begins\<close>.
\<close>

theorem generateId_slug:
  "generateId kitName = slug_spec kitName \<and> generateId ''Batman Begins'' = ''batman-begins''"
proof
  show "generateId kitName = slug_spec kitName"
    by (simp add: generateId_def slug_spec_def generateId_is_slug)
  show "generateId ''Batman Begins'' = ''batman-begins''"
    by code_simp
qed

section \<open>The lookup maps of the accessor\<close>

lemma error_is_TypeError: "(e :: error) = TypeError"
  by (cases e) simp

lemma dom_init_instruments:
  "dom (map_of (foldl (\<lambda>acc instrument. AList.update instrument [] acc) acc0 ts))
     = dom (map_of acc0) \<union> set ts"
  by (induction ts arbitrary: acc0) (auto simp: update_conv')

lemma vals_init_instruments:
  "\<forall>t ids. map_of acc0 t = Some ids \<longrightarrow> ids = [] \<Longrightarrow>
   \<forall>t ids. map_of (foldl (\<lambda>acc instrument. AList.update instrument [] acc) acc0 ts) t = Some ids
     \<longrightarrow> ids = []"
proof (induction ts arbitrary: acc0)
  case Nil
  then show ?case by simp
next
  case (Cons a ts)
  have "\<forall>t ids. map_of (AList.update a [] acc0) t = Some ids \<longrightarrow> ids = []"
    using Cons.prems by (simp add: update_conv')
  from Cons.IH [OF this] show ?case by simp
qed

lemma push_ids_ok:
  assumes "set ts \<subseteq> dom (map_of byInst)"
  shows "\<exists>byInst'. fold_err (push_id ident) byInst ts = Inr byInst' \<and>
           dom (map_of byInst') = dom (map_of byInst) \<and>
           (\<forall>t ids. map_of byInst' t = Some ids \<longrightarrow>
              (\<exists>ids0. map_of byInst t = Some ids0 \<and> set ids \<subseteq> set ids0 \<union> {ident}))"
  using assms
proof (induction ts arbitrary: byInst)
  case Nil
  then show ?case by auto
next
  case (Cons t ts)
  from Cons.prems obtain ids0 where t: "map_of byInst t = Some ids0" by auto
  let ?b1 = "AList.update t (ids0 @ [ident]) byInst"
  have step: "push_id ident byInst t = Inr ?b1" using t by (simp add: push_id_def)
  have dom1: "dom (map_of ?b1) = dom (map_of byInst)" using t by (auto simp: update_conv')
  with Cons.prems have "set ts \<subseteq> dom (map_of ?b1)" by simp
  from Cons.IH [OF this] obtain byInst' where
    r: "fold_err (push_id ident) ?b1 ts = Inr byInst'"
    and d: "dom (map_of byInst') = dom (map_of ?b1)"
    and v: "\<forall>u ids. map_of byInst' u = Some ids \<longrightarrow>
              (\<exists>ids1. map_of ?b1 u = Some ids1 \<and> set ids \<subseteq> set ids1 \<union> {ident})"
    by blast
  have "\<forall>u ids. map_of byInst' u = Some ids \<longrightarrow>
          (\<exists>ids0. map_of byInst u = Some ids0 \<and> set ids \<subseteq> set ids0 \<union> {ident})"
  proof (intro allI impI)
    fix u ids assume "map_of byInst' u = Some ids"
    with v obtain ids1 where
      i1: "map_of ?b1 u = Some ids1" and s1: "set ids \<subseteq> set ids1 \<union> {ident}" by blast
    show "\<exists>ids0. map_of byInst u = Some ids0 \<and> set ids \<subseteq> set ids0 \<union> {ident}"
    proof (cases "u = t")
      case True
      with i1 have "ids1 = ids0 @ [ident]" by (simp add: update_conv')
      with s1 t True show ?thesis by auto
    next
      case False
      with i1 have "map_of byInst u = Some ids1" by (simp add: update_conv')
      with s1 show ?thesis by blast
    qed
  qed
  with step r d dom1 show ?case by simp
qed

lemma push_ids_fail:
  assumes "\<not> set ts \<subseteq> dom (map_of byInst)"
  shows "fold_err (push_id ident) byInst ts = Inl TypeError"
  using assms
proof (induction ts arbitrary: byInst)
  case Nil
  then show ?case by simp
next
  case (Cons t ts)
  show ?case
  proof (cases "map_of byInst t")
    case None
    then show ?thesis by (simp add: push_id_def)
  next
    case (Some ids0)
    let ?b1 = "AList.update t (ids0 @ [ident]) byInst"
    have dom1: "dom (map_of ?b1) = dom (map_of byInst)" using Some by (auto simp: update_conv')
    from Cons.prems Some have "\<not> set ts \<subseteq> dom (map_of ?b1)" unfolding dom1 by auto
    from Cons.IH [OF this] Some show ?thesis by (simp add: push_id_def)
  qed
qed

lemma index_kit_ok:
  assumes "maps_ok vocab maps" and "set (availableInstruments soundkit) \<subseteq> set vocab"
  shows "\<exists>maps'. index_kit maps soundkit = Inr maps' \<and> maps_ok vocab maps' \<and>
           map_of (fst maps') = (map_of (fst maps))(kit_id soundkit \<mapsto> soundkit)"
proof -
  from assms have "set (availableInstruments soundkit) \<subseteq> dom (map_of (snd maps))"
    by (simp add: maps_ok_def)
  from push_ids_ok [OF this, of "kit_id soundkit"] obtain byInst' where
    r: "fold_err (push_id (kit_id soundkit)) (snd maps) (availableInstruments soundkit) = Inr byInst'"
    and d: "dom (map_of byInst') = dom (map_of (snd maps))"
    and v: "\<forall>t ids. map_of byInst' t = Some ids \<longrightarrow>
              (\<exists>ids0. map_of (snd maps) t = Some ids0 \<and> set ids \<subseteq> set ids0 \<union> {kit_id soundkit})"
    by blast
  let ?byId = "AList.update (kit_id soundkit) soundkit (fst maps)"
  have res: "index_kit maps soundkit = Inr (?byId, byInst')"
    using r by (simp add: index_kit_def)
  have "maps_ok vocab (?byId, byInst')"
    unfolding maps_ok_def
  proof (intro conjI allI impI)
    show "dom (map_of (snd (?byId, byInst'))) = set vocab"
      using d assms(1) by (simp add: maps_ok_def)
  next
    fix t ids assume "map_of (snd (?byId, byInst')) t = Some ids"
    then have "map_of byInst' t = Some ids" by simp
    with v obtain ids0 where
      "map_of (snd maps) t = Some ids0" and s: "set ids \<subseteq> set ids0 \<union> {kit_id soundkit}" by blast
    with assms(1) have "set ids0 \<subseteq> dom (map_of (fst maps))" by (simp add: maps_ok_def)
    with s show "set ids \<subseteq> dom (map_of (fst (?byId, byInst')))"
      by (auto simp: update_conv')
  qed
  with res show ?thesis by (simp add: update_conv')
qed

lemma index_kit_fail:
  assumes "maps_ok vocab maps" and "\<not> set (availableInstruments soundkit) \<subseteq> set vocab"
  shows "index_kit maps soundkit = Inl TypeError"
proof -
  from assms have "\<not> set (availableInstruments soundkit) \<subseteq> dom (map_of (snd maps))"
    by (simp add: maps_ok_def)
  from push_ids_fail [OF this] show ?thesis by (simp add: index_kit_def)
qed

lemma index_all_ok:
  assumes "maps_ok vocab maps"
    and "\<forall>k \<in> set kits. set (availableInstruments k) \<subseteq> set vocab"
  shows "\<exists>maps'. fold_err index_kit maps kits = Inr maps' \<and> maps_ok vocab maps' \<and>
           map_of (fst maps') = map_of (fst maps) ++ map_of (rev (map (\<lambda>k. (kit_id k, k)) kits))"
  using assms
proof (induction kits arbitrary: maps)
  case Nil
  then show ?case by simp
next
  case (Cons k kits)
  from Cons.prems index_kit_ok [of vocab maps k] obtain maps1 where
    s: "index_kit maps k = Inr maps1" and ok: "maps_ok vocab maps1"
    and m: "map_of (fst maps1) = (map_of (fst maps))(kit_id k \<mapsto> k)"
    by auto
  from Cons.prems have "\<forall>k \<in> set kits. set (availableInstruments k) \<subseteq> set vocab" by simp
  from Cons.IH [OF ok this] obtain maps' where
    r: "fold_err index_kit maps1 kits = Inr maps'" and ok': "maps_ok vocab maps'"
    and m': "map_of (fst maps') = map_of (fst maps1) ++ map_of (rev (map (\<lambda>k. (kit_id k, k)) kits))"
    by blast
  have "map_of (fst maps') =
        map_of (fst maps) ++ map_of (rev (map (\<lambda>k. (kit_id k, k)) (k # kits)))"
  proof -
    have "map_of (rev (map (\<lambda>k. (kit_id k, k)) (k # kits)))
            = [kit_id k \<mapsto> k] ++ map_of (rev (map (\<lambda>k. (kit_id k, k)) kits))"
      by (simp only: list.map rev.simps map_of_append) simp
    moreover have "(map_of (fst maps))(kit_id k \<mapsto> k) = map_of (fst maps) ++ [kit_id k \<mapsto> k]"
      by simp
    ultimately show ?thesis unfolding m' m by (simp only: map_add_assoc)
  qed
  with s r ok' show ?case by simp
qed

lemma index_all_fail:
  assumes "maps_ok vocab maps"
    and "\<exists>k \<in> set kits. \<not> set (availableInstruments k) \<subseteq> set vocab"
  shows "fold_err index_kit maps kits = Inl TypeError"
  using assms
proof (induction kits arbitrary: maps)
  case Nil
  then show ?case by simp
next
  case (Cons k kits)
  show ?case
  proof (cases "set (availableInstruments k) \<subseteq> set vocab")
    case False
    with Cons.prems(1) show ?thesis by (simp add: index_kit_fail)
  next
    case True
    with Cons.prems index_kit_ok [of vocab maps k] obtain maps1 where
      s: "index_kit maps k = Inr maps1" and ok: "maps_ok vocab maps1" by auto
    from Cons.prems True have "\<exists>k \<in> set kits. \<not> set (availableInstruments k) \<subseteq> set vocab"
      by auto
    from Cons.IH [OF ok this] s show ?thesis by simp
  qed
qed

lemma maps_ok_init:
  "maps_ok vocab ([], foldl (\<lambda>acc instrument. AList.update instrument [] acc) [] vocab)"
proof -
  have "\<forall>t ids. map_of (foldl (\<lambda>acc instrument. AList.update instrument [] acc) [] vocab) t
          = Some ids \<longrightarrow> ids = []"
    by (rule vals_init_instruments) simp
  then show ?thesis
    by (auto simp: maps_ok_def dom_init_instruments)
qed

lemma buildLookupMaps_ok:
  assumes "\<forall>k \<in> set (soundkits m). set (availableInstruments k) \<subseteq> set (manifest_instruments m)"
  shows "\<exists>maps. buildLookupMaps m = Inr maps \<and> maps_ok (manifest_instruments m) maps \<and>
           map_of (fst maps) = map_of (rev (map (\<lambda>k. (kit_id k, k)) (soundkits m)))"
proof -
  have ok0: "maps_ok (manifest_instruments m)
               ([], foldl (\<lambda>acc instrument. AList.update instrument [] acc) []
                      (manifest_instruments m))"
    by (rule maps_ok_init)
  show ?thesis
    unfolding buildLookupMaps_def Let_def
    using index_all_ok [OF ok0 assms]
    by (simp only: fst_conv map_of.simps empty_map_add)
qed

lemma buildLookupMaps_fail:
  assumes "\<exists>k \<in> set (soundkits m). \<not> set (availableInstruments k) \<subseteq> set (manifest_instruments m)"
  shows "buildLookupMaps m = Inl TypeError"
  unfolding buildLookupMaps_def Let_def
  by (rule index_all_fail [OF maps_ok_init assms])

text \<open>
  C10. The constructor of \<open>SoundkitManager\<close> throws (a TypeError, from \<open>.push\<close> on
  the missing list) when some kit of the manifest lists an available instrument that is
  not in the manifest's vocabulary. When every kit lists only tags of the vocabulary, the
  constructor returns a manager, and every id in every per-instrument list is a key of
  the id map.
\<close>

theorem new_manager_subset:
  "((\<exists>k \<in> set (soundkits m). \<not> set (availableInstruments k) \<subseteq> set (manifest_instruments m))
      \<longrightarrow> new_manager m opts = Inl TypeError) \<and>
   ((\<forall>k \<in> set (soundkits m). set (availableInstruments k) \<subseteq> set (manifest_instruments m))
      \<longrightarrow> (\<exists>mgr. new_manager m opts = Inr mgr \<and>
             (\<forall>tag ids ident. map_of (soundkitsByInstrument mgr) tag = Some ids \<and> ident \<in> set ids
                \<longrightarrow> (\<exists>k. getSoundkit mgr ident = Some k))))"
proof (intro conjI impI)
  assume "\<exists>k \<in> set (soundkits m). \<not> set (availableInstruments k) \<subseteq> set (manifest_instruments m)"
  then have "buildLookupMaps m = Inl TypeError" by (rule buildLookupMaps_fail)
  then show "new_manager m opts = Inl TypeError" by (simp add: new_manager_def)
next
  assume "\<forall>k \<in> set (soundkits m). set (availableInstruments k) \<subseteq> set (manifest_instruments m)"
  from buildLookupMaps_ok [OF this] obtain maps where
    b: "buildLookupMaps m = Inr maps" and ok: "maps_ok (manifest_instruments m) maps" by blast
  let ?mgr = "\<lparr> mgr_manifest = m,
                baseUrl = or_else (opt_baseUrl opts) (or_else (manifest_baseUrl m) []),
                samplesPath = or_else (opt_samplesPath opts) ''samples'',
                soundkitMap = fst maps,
                soundkitsByInstrument = snd maps \<rparr>"
  have "new_manager m opts = Inr ?mgr" using b by (simp add: new_manager_def)
  moreover have "\<forall>tag ids ident. map_of (soundkitsByInstrument ?mgr) tag = Some ids \<and> ident \<in> set ids
                \<longrightarrow> (\<exists>k. getSoundkit ?mgr ident = Some k)"
  proof (intro allI impI)
    fix tag ids ident
    assume h: "map_of (soundkitsByInstrument ?mgr) tag = Some ids \<and> ident \<in> set ids"
    then have "map_of (snd maps) tag = Some ids" by simp
    with ok have "set ids \<subseteq> dom (map_of (fst maps))" unfolding maps_ok_def by blast
    with h have "ident \<in> dom (map_of (fst maps))" by blast
    then show "\<exists>k. getSoundkit ?mgr ident = Some k" by (auto simp: getSoundkit_def)
  qed
  ultimately show "\<exists>mgr. new_manager m opts = Inr mgr \<and>
             (\<forall>tag ids ident. map_of (soundkitsByInstrument mgr) tag = Some ids \<and> ident \<in> set ids
                \<longrightarrow> (\<exists>k. getSoundkit mgr ident = Some k))"
    by blast
qed


theorem new_manager_subset_witness:
  "new_manager cowbell_manifest no_options = Inl TypeError \<and>
   (\<exists>mgr. new_manager batman_manifest no_options = Inr mgr \<and>
      (\<forall>tag ids ident. map_of (soundkitsByInstrument mgr) tag = Some ids \<and> ident \<in> set ids
         \<longrightarrow> (\<exists>k. getSoundkit mgr ident = Some k)))"
proof -
  have bad: "\<exists>k \<in> set (soundkits cowbell_manifest).
               \<not> set (availableInstruments k) \<subseteq> set (manifest_instruments cowbell_manifest)"
    by code_simp
  have good: "\<forall>k \<in> set (soundkits batman_manifest).
               set (availableInstruments k) \<subseteq> set (manifest_instruments batman_manifest)"
    by code_simp
  from new_manager_subset [THEN conjunct1, THEN mp, OF bad]
    new_manager_subset [THEN conjunct2, THEN mp, OF good]
  show ?thesis by (rule conjI)
qed










section \<open>Sorting by completeness\<close>



lemma insert_by_insort_key:
  assumes "\<And>x y. cmp x y \<le> 0 \<longleftrightarrow> key x \<le> key y"
  shows "insert_by cmp x ys = insort_key key x ys"
  by (induction ys) (auto simp: assms)

lemma sort_by_sort_key:
  assumes "\<And>x y. cmp x y \<le> 0 \<longleftrightarrow> key x \<le> key y"
  shows "sort_by cmp xs = sort_key key xs"
proof -
  have "insert_by cmp = insort_key key"
    by (intro ext) (rule insert_by_insort_key [OF assms])
  then show ?thesis by (simp add: sort_by_def sort_key_def)
qed

lemma sort_by_completeness:
  "sort_by (\<lambda>a b. if ascending then completeness a - completeness b
                   else completeness b - completeness a) xs
     = sort_key (\<lambda>k. if ascending then completeness k else - completeness k) xs"
  by (rule sort_by_sort_key) auto

lemma sorted_direction:
  "sorted (map (\<lambda>k. if ascending then completeness k else - completeness k) xs) \<longleftrightarrow>
   sorted_wrt (\<lambda>a b. if ascending then completeness a \<le> completeness b
                      else completeness b \<le> completeness a) xs"
  by (cases ascending) (simp_all add: sorted_wrt_map)

lemma filter_direction:
  "filter (\<lambda>k. completeness k = c) xs =
   filter (\<lambda>k. (if ascending then completeness k else - completeness k)
                 = (if ascending then c else - c)) xs"
  by (cases ascending) simp_all

text \<open>
  C9. \<open>getSoundkitsByCompleteness\<close> leaves the array of the manifest as it was (as it
  leaves every array that existed before the call) and returns a new array. The new
  array is sorted by completeness in the requested direction, it is a permutation of the
  manifest's array, and the sort is stable: kits of equal completeness keep the order
  they have in the manifest.
\<close>

theorem getSoundkitsByCompleteness_frame:
  assumes "soundkits_ref < length st"
  shows "let result = fst (getSoundkitsByCompleteness ascending soundkits_ref st);
             st' = snd (getSoundkitsByCompleteness ascending soundkits_ref st)
         in st' ! soundkits_ref = st ! soundkits_ref \<and>
            (\<forall>a < length st. st' ! a = st ! a) \<and>
            result = length st \<and>
            sorted_wrt (\<lambda>a b. if ascending then completeness a \<le> completeness b
                               else completeness b \<le> completeness a) (st' ! result) \<and>
            mset (st' ! result) = mset (st ! soundkits_ref) \<and>
            (\<forall>c. filter (\<lambda>k. completeness k = c) (st' ! result)
                   = filter (\<lambda>k. completeness k = c) (st ! soundkits_ref))"
proof -
  let ?key = "\<lambda>k. if ascending then completeness k else - completeness k"
  let ?sorted = "sort_key ?key (st ! soundkits_ref)"
  have res: "getSoundkitsByCompleteness ascending soundkits_ref st
               = (length st, st @ [?sorted])"
    using assms
    by (simp add: getSoundkitsByCompleteness_def spread_def sort_in_place_def
        sort_by_completeness nth_append)
  have old: "\<forall>a < length st. (st @ [?sorted]) ! a = st ! a"
    by (simp add: nth_append)
  have same: "(st @ [?sorted]) ! soundkits_ref = st ! soundkits_ref"
    using assms by (simp add: nth_append)
  have new: "(st @ [?sorted]) ! length st = ?sorted" by simp
  have srt: "sorted_wrt (\<lambda>a b. if ascending then completeness a \<le> completeness b
                               else completeness b \<le> completeness a) ?sorted"
    unfolding sorted_direction [symmetric] by (rule sorted_sort_key)
  have perm: "mset ?sorted = mset (st ! soundkits_ref)" by simp
  have stable: "\<forall>c. filter (\<lambda>k. completeness k = c) ?sorted
                   = filter (\<lambda>k. completeness k = c) (st ! soundkits_ref)"
  proof
    fix c
    show "filter (\<lambda>k. completeness k = c) ?sorted
            = filter (\<lambda>k. completeness k = c) (st ! soundkits_ref)"
      unfolding filter_direction [of c _ ascending] by (rule sort_key_stable)
  qed
  show ?thesis
    unfolding res Let_def fst_conv snd_conv new
    by (intro conjI same old refl srt perm stable)
qed

theorem getSoundkitsByCompleteness_frame_witness:
  "(0::nat) < length demo_store \<and>
   fst (getSoundkitsByCompleteness False 0 demo_store) = 1 \<and>
   snd (getSoundkitsByCompleteness False 0 demo_store) ! 0 = demo_store ! 0 \<and>
   map name (snd (getSoundkitsByCompleteness False 0 demo_store) ! 1) = [''A'', ''C'', ''B''] \<and>
   sorted_wrt (\<lambda>a b. completeness b \<le> completeness a)
     (snd (getSoundkitsByCompleteness False 0 demo_store) ! 1)"
proof -
  have h: "(0::nat) < length demo_store" by (simp add: demo_store_def)
  have len: "length demo_store = 1" by (simp add: demo_store_def)
  have names: "map name (snd (getSoundkitsByCompleteness False 0 demo_store) ! 1)
                 = [''A'', ''C'', ''B'']"
    by code_simp
  note t = getSoundkitsByCompleteness_frame [OF h, of False, unfolded Let_def len]
  from t have r: "fst (getSoundkitsByCompleteness False 0 demo_store) = 1" by blast
  from t have "\<forall>a < 1. snd (getSoundkitsByCompleteness False 0 demo_store) ! a = demo_store ! a"
    by blast
  then have old: "snd (getSoundkitsByCompleteness False 0 demo_store) ! 0 = demo_store ! 0"
    by simp
  from t have "sorted_wrt (\<lambda>a b. if False then completeness a \<le> completeness b
                               else completeness b \<le> completeness a)
      (snd (getSoundkitsByCompleteness False 0 demo_store)
         ! fst (getSoundkitsByCompleteness False 0 demo_store))"
    by blast
  then have srt: "sorted_wrt (\<lambda>a b. completeness b \<le> completeness a)
      (snd (getSoundkitsByCompleteness False 0 demo_store) ! 1)"
    unfolding r by simp
  from h r old names srt show ?thesis by (intro conjI)
qed

section \<open>Statistics\<close>





















section \<open>The aggregation\<close>

lemma add_file_event:
  "add_file cfg t sk f = (if accepted cfg f then add_event sk (kit_name_of cfg f, t, f) else sk)"
  by (auto simp: add_file_def accepted_def add_event_def apply_event_def kit_name_of_def Let_def
      split: option.splits)

lemma add_files_events:
  "foldl (add_file cfg t) sk files =
   foldl add_event sk (map (\<lambda>f. (kit_name_of cfg f, t, f)) (filter (accepted cfg) files))"
  by (induction files arbitrary: sk) (simp_all add: add_file_event)

lemma scan_folder_events:
  "scan_folder cfg readdir sk t = foldl add_event sk (folder_events cfg readdir t)"
  by (simp add: scan_folder_def folder_events_def add_files_events split: option.splits)

lemma scan_folders_events:
  "foldl (scan_folder cfg readdir) sk ts =
   foldl add_event sk (concat (map (folder_events cfg readdir) ts))"
  by (induction ts arbitrary: sk) (simp_all add: scan_folder_events)

lemma scan_events:
  "scan cfg readdir =
   map (\<lambda>(n, soundkit). (n, finish_kit cfg soundkit)) (foldl add_event [] (events cfg readdir))"
  by (simp add: scan_def events_def scan_folders_events)

lemma map_of_add_event:
  "map_of (add_event sk e) =
   (map_of sk)(fst e \<mapsto>
      apply_event (case map_of sk (fst e) of None \<Rightarrow> new_kit (fst e) | Some k \<Rightarrow> k) (snd e))"
  by (simp add: add_event_def update_conv')

lemma events_for_Cons:
  "events_for n (e # evs) = (if fst e = n then snd e # events_for n evs else events_for n evs)"
  by (simp add: events_for_def)

lemma events_for_Nil [simp]: "events_for n [] = []"
  by (simp add: events_for_def)

lemma lookup_events:
  "map_of (foldl add_event sk evs) n =
     (if events_for n evs = [] then map_of sk n
      else Some (foldl apply_event
                   (case map_of sk n of None \<Rightarrow> new_kit n | Some k \<Rightarrow> k)
                   (events_for n evs)))"
proof (induction evs arbitrary: sk)
  case Nil
  then show ?case by simp
next
  case (Cons e evs)
  show ?case
  proof (cases "fst e = n")
    case True
    then show ?thesis
      unfolding foldl_Cons Cons.IH
      by (simp add: events_for_Cons map_of_add_event cong: option.case_cong)
  next
    case False
    then show ?thesis
      unfolding foldl_Cons Cons.IH by (simp add: events_for_Cons map_of_add_event)
  qed
qed

lemma keys_events:
  "distinct (map fst sk) \<Longrightarrow> distinct (map fst (foldl add_event sk evs))"
  by (induction evs arbitrary: sk) (simp_all add: add_event_def distinct_update)

lemma apply_events_fields:
  "name (foldl apply_event k0 es) = name k0"
  "kit_id (foldl apply_event k0 es) = kit_id k0"
  "availableInstruments (foldl apply_event k0 es) = availableInstruments k0 @ map fst es"
  by (induction es arbitrary: k0) (simp_all add: apply_event_def)

lemma apply_events_instruments:
  "map_of (kit_instruments (foldl apply_event k0 es)) =
     map_of (kit_instruments k0) ++
     map_of (rev (map path_of (filter (\<lambda>e. fst e \<noteq> ''__proto__'') es)))"
proof (induction es arbitrary: k0)
  case Nil
  then show ?case by simp
next
  case (Cons e es)
  show ?case
  proof (cases "fst e = ''__proto__''")
    case True
    then have a: "kit_instruments (apply_event k0 e) = kit_instruments k0"
      by (simp add: apply_event_def set_property_def)
    have b: "filter (\<lambda>e. fst e \<noteq> ''__proto__'') (e # es)
               = filter (\<lambda>e. fst e \<noteq> ''__proto__'') es"
      using True by simp
    show ?thesis unfolding foldl_Cons Cons.IH a b ..
  next
    case False
    have a: "map_of (kit_instruments (apply_event k0 e))
               = map_of (kit_instruments k0) ++ [fst (path_of e) \<mapsto> snd (path_of e)]"
      using False by (simp add: apply_event_def set_property_def update_conv' path_of_def)
    have f: "filter (\<lambda>e. fst e \<noteq> ''__proto__'') (e # es)
               = e # filter (\<lambda>e. fst e \<noteq> ''__proto__'') es"
      using False by simp
    have b: "map_of (rev (map path_of (filter (\<lambda>e. fst e \<noteq> ''__proto__'') (e # es))))
               = [fst (path_of e) \<mapsto> snd (path_of e)] ++
                 map_of (rev (map path_of (filter (\<lambda>e. fst e \<noteq> ''__proto__'') es)))"
      unfolding f by (simp only: list.map rev.simps map_of_append) simp
    show ?thesis
      unfolding foldl_Cons Cons.IH a b by (simp only: map_add_assoc)
  qed
qed

lemma folder_events_mem:
  "(n, t', f) \<in> set (folder_events cfg readdir t) \<longleftrightarrow>
     t' = t \<and> (\<exists>files. readdir t = Some files \<and> f \<in> set files) \<and>
     accepted cfg f \<and> n = kit_name_of cfg f"
proof (cases "readdir t")
  case None
  then show ?thesis by (simp add: folder_events_def)
next
  case (Some files)
  then show ?thesis by (auto simp: folder_events_def)
qed

lemma events_mem:
  "(n, t, f) \<in> set (events cfg readdir) \<longleftrightarrow>
     t \<in> set (instruments cfg) \<and> (\<exists>files. readdir t = Some files \<and> f \<in> set files) \<and>
     accepted cfg f \<and> n = kit_name_of cfg f"
proof -
  have "(n, t, f) \<in> set (events cfg readdir) \<longleftrightarrow>
          (\<exists>u \<in> set (instruments cfg). (n, t, f) \<in> set (folder_events cfg readdir u))"
    by (simp add: events_def)
  then show ?thesis unfolding folder_events_mem by blast
qed

lemma events_for_mem:
  "(t, f) \<in> set (events_for n evs) \<longleftrightarrow> (n, t, f) \<in> set evs"
  by (force simp: events_for_def)

lemma finish_kit_fields:
  "name (finish_kit cfg k) = name k"
  "kit_id (finish_kit cfg k) = kit_id k"
  "kit_instruments (finish_kit cfg k) = kit_instruments k"
  "availableInstruments (finish_kit cfg k) = sort (uniq (availableInstruments k))"
  "completeness (finish_kit cfg k) =
     percent (length (sort (uniq (availableInstruments k)))) (length (instruments cfg))"
  by (simp_all add: finish_kit_def Let_def percent_def)

lemma map_of_scan:
  "map_of (scan cfg readdir) n =
     (if events_for n (events cfg readdir) = [] then None
      else Some (finish_kit cfg
                   (foldl apply_event (new_kit n) (events_for n (events cfg readdir)))))"
proof -
  have "map_of (scan cfg readdir) n
          = map_option (finish_kit cfg) (map_of (foldl add_event [] (events cfg readdir)) n)"
    unfolding scan_events by (simp add: map_of_map)
  then show ?thesis by (simp add: lookup_events)
qed

lemma distinct_scan: "distinct (map fst (scan cfg readdir))"
proof -
  have "map fst (scan cfg readdir) = map fst (foldl add_event [] (events cfg readdir))"
    unfolding scan_events by (simp add: case_prod_unfold comp_def)
  moreover have "distinct (map fst (foldl add_event [] (events cfg readdir)))"
    by (rule keys_events) simp
  ultimately show ?thesis by simp
qed

lemma scan_mem:
  "(n, k) \<in> set (scan cfg readdir) \<longleftrightarrow>
     events_for n (events cfg readdir) \<noteq> [] \<and>
     k = finish_kit cfg (foldl apply_event (new_kit n) (events_for n (events cfg readdir)))"
proof -
  have "(n, k) \<in> set (scan cfg readdir) \<longleftrightarrow> map_of (scan cfg readdir) n = Some k"
    using distinct_scan by simp
  then show ?thesis unfolding map_of_scan by auto
qed

lemma uniq_props: "set (uniq xs) = set xs" "distinct (uniq xs)"
  by (simp_all add: uniq_def)

lemma scanned_available:
  assumes "(n, k) \<in> set (scan cfg readdir)"
  shows "availableInstruments k = sort (uniq (map fst (events_for n (events cfg readdir))))"
    and "set (availableInstruments k) \<subseteq> set (instruments cfg)"
    and "instruments cfg \<noteq> []"
proof -
  let ?es = "events_for n (events cfg readdir)"
  from assms have ne: "?es \<noteq> []"
    and k: "k = finish_kit cfg (foldl apply_event (new_kit n) ?es)"
    by (simp_all add: scan_mem)
  show a: "availableInstruments k = sort (uniq (map fst ?es))"
    unfolding k by (simp add: finish_kit_fields apply_events_fields new_kit_def)
  have tags: "fst ` set ?es \<subseteq> set (instruments cfg)"
  proof
    fix t assume "t \<in> fst ` set ?es"
    then obtain f where "(t, f) \<in> set ?es" by auto
    then have "(n, t, f) \<in> set (events cfg readdir)" by (simp add: events_for_mem)
    then show "t \<in> set (instruments cfg)" by (simp add: events_mem)
  qed
  then show "set (availableInstruments k) \<subseteq> set (instruments cfg)"
    unfolding a by (simp add: uniq_props)
  from ne obtain e where "e \<in> set ?es" by (cases ?es) auto
  with tags have "fst e \<in> set (instruments cfg)" by auto
  then show "instruments cfg \<noteq> []" by auto
qed



text \<open>
  C4, amended. Every kit that \<open>scan\<close> produces has a sorted, duplicate-free list of available
  instruments, all of them tags of the vocabulary, and its completeness is the double
  that the source computes: the length \<open>a\<close> of that list divided by the length \<open>n\<close> of the
  vocabulary, rounded, then multiplied by 100 and rounded again. This double differs
  from the exact value of \<open>a / n * 100\<close> by at most \<open>2\<^sup>-\<^sup>4\<^sup>5\<close>, and it lies between 0 and 100.
  A completeness of 100 means that the available instruments are the whole vocabulary
  (for a vocabulary of fewer than \<open>2\<^sup>3\<^sup>2\<close> tags: a JavaScript array has no more elements),
  and for a vocabulary of distinct tags the converse holds: the completeness is 100
  exactly when the available instruments, as a set, are the vocabulary.
\<close>

theorem scanned_completeness:
  assumes "(n, k) \<in> set (scan cfg readdir)"
  shows "completeness k =
           dbl_mul (dbl_div (of_nat (length (availableInstruments k)))
                      (of_nat (length (instruments cfg)))) 100 \<and>
         \<bar>completeness k -
            of_nat (length (availableInstruments k)) / of_nat (length (instruments cfg)) * 100\<bar>
           \<le> 1 / 2 ^ 45 \<and>
         0 \<le> completeness k \<and> completeness k \<le> 100 \<and>
         sorted (availableInstruments k) \<and> distinct (availableInstruments k) \<and>
         set (availableInstruments k) \<subseteq> set (instruments cfg) \<and>
         (length (instruments cfg) < 2 ^ 32 \<longrightarrow> completeness k = 100 \<longrightarrow>
            set (availableInstruments k) = set (instruments cfg)) \<and>
         (distinct (instruments cfg) \<longrightarrow> set (availableInstruments k) = set (instruments cfg)
            \<longrightarrow> completeness k = 100)"
proof -
  let ?a = "length (availableInstruments k)"
  let ?N = "length (instruments cfg)"
  note av = scanned_available [OF assms]
  have srt: "sorted (availableInstruments k)" and dist: "distinct (availableInstruments k)"
    unfolding av(1) by (simp_all add: uniq_props)
  have Npos: "0 < ?N" using av(3) by simp
  have card_a: "card (set (availableInstruments k)) = ?a" using dist by (rule distinct_card)
  have "card (set (availableInstruments k)) \<le> card (set (instruments cfg))"
    using av(2) by (intro card_mono) simp_all
  also have "\<dots> \<le> ?N" by (rule card_length)
  finally have le: "?a \<le> ?N" unfolding card_a .
  from assms have k: "k = finish_kit cfg
      (foldl apply_event (new_kit n) (events_for n (events cfg readdir)))"
    by (simp add: scan_mem)
  have p: "completeness k = percent ?a ?N"
    by (subst (1 2) k) (simp add: finish_kit_fields)
  have c: "completeness k = dbl_mul (dbl_div (of_nat ?a) (of_nat ?N)) 100"
    unfolding p by (simp add: percent_def)
  have near: "\<bar>completeness k - of_nat ?a / of_nat ?N * 100\<bar> \<le> 1 / 2 ^ 45"
    unfolding p using le Npos by (rule percent_near)
  have nonneg: "0 \<le> completeness k" unfolding p by (rule percent_nonneg)
  have upper: "completeness k \<le> 100" unfolding p using le by (rule percent_le_100)
  have only_if: "?N < 2 ^ 32 \<longrightarrow> completeness k = 100 \<longrightarrow>
                   set (availableInstruments k) = set (instruments cfg)"
  proof (intro impI)
    assume small: "?N < 2 ^ 32" and "completeness k = 100"
    then have "percent ?a ?N = 100" by (simp add: p)
    then have "?a = ?N" using percent_eq_100_iff [OF le Npos small] by simp
    with card_a have "?N \<le> card (set (availableInstruments k))" by simp
    moreover have "card (set (instruments cfg)) \<le> ?N" by (rule card_length)
    ultimately have "card (set (instruments cfg)) \<le> card (set (availableInstruments k))"
      by simp
    with av(2) show "set (availableInstruments k) = set (instruments cfg)"
      by (intro card_seteq) simp_all
  qed
  have "if": "distinct (instruments cfg) \<longrightarrow>
              set (availableInstruments k) = set (instruments cfg) \<longrightarrow> completeness k = 100"
  proof (intro impI)
    assume d: "distinct (instruments cfg)"
      and s: "set (availableInstruments k) = set (instruments cfg)"
    from d have "card (set (instruments cfg)) = ?N" by (rule distinct_card)
    with s card_a have "?a = ?N" by simp
    then show "completeness k = 100" unfolding p using Npos by (simp add: percent_full)
  qed
  show ?thesis by (intro conjI c near nonneg upper srt dist av(2) only_if "if")
qed

lemma solo_scan: "scan solo_config solo_readdir = [(''Solo'', solo_kit)]"
  by code_simp

lemma batman_scan: "scan CONFIG batman_readdir = [(''Batman Begins'', batman_kit)]"
  by code_simp

lemma third_scan: "scan third_config batman_readdir = [(''Batman Begins'', third_kit)]"
  by code_simp

theorem scanned_completeness_witness:
  "(''Solo'', solo_kit) \<in> set (scan solo_config solo_readdir) \<and>
   distinct (instruments solo_config) \<and>
   set (availableInstruments solo_kit) = set (instruments solo_config) \<and>
   completeness solo_kit = 100 \<and>
   (''Batman Begins'', batman_kit) \<in> set (scan CONFIG batman_readdir) \<and>
   completeness batman_kit = dbl_mul (dbl_div 2 8) 100 \<and> completeness batman_kit = 25 \<and>
   (''Batman Begins'', third_kit) \<in> set (scan third_config batman_readdir) \<and>
   length (instruments third_config) < 2 ^ 32 \<and>
   completeness third_kit = dbl_mul (dbl_div 2 3) 100 \<and>
   completeness third_kit = 2345624805922133 / 35184372088832 \<and>
   completeness third_kit \<noteq> 200 / 3 \<and>
   \<bar>completeness third_kit - 200 / 3\<bar> \<le> 1 / 2 ^ 45 \<and>
   set (availableInstruments third_kit) \<noteq> set (instruments third_config)"
proof -
  have m: "(''Solo'', solo_kit) \<in> set (scan solo_config solo_readdir)"
    unfolding solo_scan by simp
  have d: "distinct (instruments solo_config)" by (simp add: solo_config_def)
  have s: "set (availableInstruments solo_kit) = set (instruments solo_config)"
    by (simp add: solo_config_def solo_kit_def)
  have b: "(''Batman Begins'', batman_kit) \<in> set (scan CONFIG batman_readdir)"
    unfolding batman_scan by simp
  have t: "(''Batman Begins'', third_kit) \<in> set (scan third_config batman_readdir)"
    unfolding third_scan by simp
  have lens: "length (availableInstruments batman_kit) = 2" "length (instruments CONFIG) = 8"
    "length (availableInstruments third_kit) = 2" "length (instruments third_config) = 3"
    by (simp_all add: batman_kit_def third_kit_def CONFIG_def third_config_def)
  have small: "length (instruments third_config) < 2 ^ 32" by (simp add: lens)
  from scanned_completeness [OF m] d s have full: "completeness solo_kit = 100" by blast
  from scanned_completeness [OF b, THEN conjunct1] have
    quarter: "completeness batman_kit = dbl_mul (dbl_div 2 8) 100"
    unfolding lens by simp
  have exact: "completeness batman_kit = 25" by (simp add: batman_kit_def)
  from scanned_completeness [OF t, THEN conjunct1] have
    third: "completeness third_kit = dbl_mul (dbl_div 2 3) 100"
    unfolding lens by simp
  from scanned_completeness [OF t, THEN conjunct2, THEN conjunct1] have
    near: "\<bar>completeness third_kit - 200 / 3\<bar> \<le> 1 / 2 ^ 45"
    unfolding lens by simp
  have dbl: "completeness third_kit = 2345624805922133 / 35184372088832"
    by (simp add: third_kit_def)
  have inexact: "completeness third_kit \<noteq> 200 / 3" by (simp add: third_kit_def)
  from scanned_completeness [OF t] small inexact dbl have
    part: "set (availableInstruments third_kit) \<noteq> set (instruments third_config)"
    by (simp add: third_kit_def batman_kit_def third_config_def)
  show ?thesis
    by (intro conjI m d s full b quarter exact t small third dbl inexact near part)
qed

section \<open>The statistics of an aggregated kit set\<close>





section \<open>The ids of a manifest\<close>

lemma scanned_name_id:
  assumes "(n, k) \<in> set (scan cfg readdir)"
  shows "name k = n" and "kit_id k = generateId n"
  using assms by (simp_all add: scan_mem finish_kit_fields apply_events_fields new_kit_def)










section \<open>The order of the scan\<close>

lemma scanned_completeness_aux:
  assumes "(n, k) \<in> set (scan cfg readdir)"
  shows "completeness k = percent (length (availableInstruments k)) (length (instruments cfg))"
proof -
  from assms have k: "k = finish_kit cfg
      (foldl apply_event (new_kit n) (events_for n (events cfg readdir)))"
    by (simp add: scan_mem)
  show ?thesis by (subst (1 2) k) (simp add: finish_kit_fields)
qed

lemma parseFilename_vocab:
  assumes "set (instruments cfg') = set (instruments cfg)"
    and "fileExtension cfg' = fileExtension cfg"
  shows "parseFilename cfg' f = parseFilename cfg f"
  by (simp only: parseFilename_def assms)

lemma accepted_vocab:
  assumes "set (instruments cfg') = set (instruments cfg)"
    and "fileExtension cfg' = fileExtension cfg"
  shows "accepted cfg' f = accepted cfg f" and "kit_name_of cfg' f = kit_name_of cfg f"
  using assms by (simp_all add: accepted_def kit_name_of_def parseFilename_vocab [OF assms])

lemma events_permuted:
  assumes "mset (instruments cfg') = mset (instruments cfg)"
    and "fileExtension cfg' = fileExtension cfg"
    and "\<forall>t. rel_option (\<lambda>files files'. mset files' = mset files) (readdir t) (readdir' t)"
  shows "set (events cfg' readdir') = set (events cfg readdir)"
proof -
  from assms(1) have vocab: "set (instruments cfg') = set (instruments cfg)"
    by (rule mset_eq_setD)
  have listing: "(\<exists>files. readdir' t = Some files \<and> f \<in> set files) \<longleftrightarrow>
                 (\<exists>files. readdir t = Some files \<and> f \<in> set files)" for t f
  proof -
    from assms(3) have r: "rel_option (\<lambda>files files'. mset files' = mset files)
                             (readdir t) (readdir' t)" by blast
    show ?thesis
    proof (cases "readdir t")
      case None
      with r show ?thesis by (cases "readdir' t") simp_all
    next
      case (Some files)
      with r obtain files' where f': "readdir' t = Some files'" and "mset files' = mset files"
        by (cases "readdir' t") simp_all
      then have "set files' = set files" by (intro mset_eq_setD)
      with Some f' show ?thesis by simp
    qed
  qed
  have "e \<in> set (events cfg' readdir') \<longleftrightarrow> e \<in> set (events cfg readdir)" for e
  proof -
    obtain n t f where e: "e = (n, t, f)" by (cases e) auto
    show ?thesis
      unfolding e events_mem accepted_vocab [OF vocab assms(2)] vocab listing ..
  qed
  then show ?thesis by blast
qed

lemma map_of_functional:
  assumes "\<forall>k v v'. (k, v) \<in> set xs \<and> (k, v') \<in> set xs \<longrightarrow> v = v'"
  shows "map_of xs k = Some v \<longleftrightarrow> (k, v) \<in> set xs"
proof
  assume "map_of xs k = Some v"
  then show "(k, v) \<in> set xs" by (rule map_of_SomeD)
next
  assume m: "(k, v) \<in> set xs"
  then have "k \<in> fst ` set xs" by force
  then have "map_of xs k \<noteq> None" by (simp add: map_of_eq_None_iff)
  then obtain v' where v': "map_of xs k = Some v'" by auto
  then have "(k, v') \<in> set xs" by (rule map_of_SomeD)
  with m assms have "v' = v" by blast
  with v' show "map_of xs k = Some v" by simp
qed

lemma map_of_same_set:
  assumes "\<forall>k v v'. (k, v) \<in> set xs \<and> (k, v') \<in> set xs \<longrightarrow> v = v'"
    and "set ys = set xs"
  shows "map_of ys = map_of xs"
proof
  fix k
  have fy: "\<forall>k v v'. (k, v) \<in> set ys \<and> (k, v') \<in> set ys \<longrightarrow> v = v'"
    using assms by simp
  show "map_of ys k = map_of xs k"
  proof (cases "map_of xs k")
    case None
    then have "k \<notin> fst ` set ys" using assms(2) by (simp add: map_of_eq_None_iff)
    then have "map_of ys k = None" by (simp add: map_of_eq_None_iff)
    with None show ?thesis by simp
  next
    case (Some v)
    then have "(k, v) \<in> set ys" using assms by (simp add: map_of_functional)
    then have "map_of ys k = Some v" using fy by (simp add: map_of_functional)
    with Some show ?thesis by simp
  qed
qed

lemma scanned_instruments:
  assumes "(n, k) \<in> set (scan cfg readdir)"
  shows "map_of (kit_instruments k)
           = map_of (rev (map path_of (filter (\<lambda>e. fst e \<noteq> ''__proto__'')
                                         (events_for n (events cfg readdir)))))"
proof -
  from assms have k: "k = finish_kit cfg
      (foldl apply_event (new_kit n) (events_for n (events cfg readdir)))"
    by (simp add: scan_mem)
  show ?thesis
    by (subst k) (simp add: finish_kit_fields apply_events_instruments new_kit_def)
qed

lemma no_clash_functional:
  assumes "no_clash cfg readdir n"
    and "(t, p) \<in> set (rev (map path_of (filter (\<lambda>e. fst e \<noteq> ''__proto__'')
                                             (events_for n (events cfg readdir)))))"
    and "(t, p') \<in> set (rev (map path_of (filter (\<lambda>e. fst e \<noteq> ''__proto__'')
                                              (events_for n (events cfg readdir)))))"
  shows "p = p'"
proof -
  from assms(2) obtain f where p: "p = t @ ''/'' @ f"
    and f: "(n, t, f) \<in> set (events cfg readdir)"
    by (auto simp: path_of_def events_for_mem)
  from assms(3) obtain f' where p': "p' = t @ ''/'' @ f'"
    and f': "(n, t, f') \<in> set (events cfg readdir)"
    by (auto simp: path_of_def events_for_mem)
  from f obtain files where t: "t \<in> set (instruments cfg)" and r: "readdir t = Some files"
    and a: "f \<in> set files" "accepted cfg f" "kit_name_of cfg f = n"
    by (auto simp: events_mem)
  from f' r have a': "f' \<in> set files" "accepted cfg f'" "kit_name_of cfg f' = n"
    by (auto simp: events_mem)
  from assms(1) t r have
    "\<forall>f \<in> set files. \<forall>f' \<in> set files.
       accepted cfg f \<and> accepted cfg f' \<and> kit_name_of cfg f = n \<and> kit_name_of cfg f' = n
         \<longrightarrow> f = f'"
    by (force simp: no_clash_def)
  with a a' have "f = f'" by blast
  with p p' show ?thesis by simp
qed

lemma last_opt_simps [simp]:
  "last_opt [] = None"
  "last_opt (xs @ [x]) = Some x"
  by (simp_all add: last_opt_def)

lemma last_opt_append:
  "last_opt (xs @ ys) = (case last_opt ys of None \<Rightarrow> last_opt xs | Some y \<Rightarrow> Some y)"
  by (simp add: last_opt_def)

lemma last_opt_Cons:
  "last_opt (x # xs) = (case last_opt xs of None \<Rightarrow> Some x | Some y \<Rightarrow> Some y)"
  by (simp add: last_opt_def)

lemma last_opt_map: "last_opt (map f xs) = map_option f (last_opt xs)"
  by (simp add: last_opt_def last_map)

lemma map_of_rev_last:
  "map_of (rev xs) k = map_option snd (last_opt (filter (\<lambda>p. fst p = k) xs))"
proof (induction xs)
  case Nil
  then show ?case by simp
next
  case (Cons x xs)
  have "map_of (rev (x # xs)) k =
          (case map_of (rev xs) k of None \<Rightarrow> map_of [x] k | Some v \<Rightarrow> Some v)"
    by (simp add: map_add_def split: option.splits)
  also have "\<dots> = map_option snd (last_opt (filter (\<lambda>p. fst p = k) (x # xs)))"
    unfolding Cons.IH by (cases x) (simp add: last_opt_Cons split: option.splits)
  finally show ?case .
qed

lemma last_opt_block:
  "last_opt (concat (map (\<lambda>u. if u = t then B else []) ts))
     = (if t \<in> set ts then last_opt B else None)"
proof (induction ts)
  case Nil
  then show ?case by simp
next
  case (Cons u ts)
  show ?case
    unfolding list.map concat.simps last_opt_append Cons.IH
    by (cases "last_opt B") simp_all
qed

lemma folder_events_filter:
  "filter (\<lambda>e. fst e = n \<and> fst (snd e) = t) (folder_events cfg readdir u)
     = (if u = t
        then map (\<lambda>f. (n, t, f))
               (case readdir t of
                  None \<Rightarrow> []
                | Some files \<Rightarrow> filter (\<lambda>f. accepted cfg f \<and> kit_name_of cfg f = n) files)
        else [])"
proof (cases "readdir u")
  case None
  then show ?thesis by (auto simp: folder_events_def)
next
  case (Some files)
  have "filter (\<lambda>e. fst e = n \<and> fst (snd e) = t)
          (map (\<lambda>f. (kit_name_of cfg f, u, f)) (filter (accepted cfg) files))
        = (if u = t
           then map (\<lambda>f. (n, t, f)) (filter (\<lambda>f. accepted cfg f \<and> kit_name_of cfg f = n) files)
           else [])"
    by (induction files) auto
  with Some show ?thesis by (auto simp: folder_events_def)
qed

lemma events_filter:
  "filter (\<lambda>e. fst e = t) (events_for n (events cfg readdir))
     = map snd (concat (map (\<lambda>u. if u = t
          then map (\<lambda>f. (n, t, f))
                 (case readdir t of
                    None \<Rightarrow> []
                  | Some files \<Rightarrow> filter (\<lambda>f. accepted cfg f \<and> kit_name_of cfg f = n) files)
          else []) (instruments cfg)))"
proof -
  have "filter (\<lambda>e. fst e = t) (events_for n (events cfg readdir))
          = map snd (filter (\<lambda>e. fst e = n \<and> fst (snd e) = t) (events cfg readdir))"
    by (simp add: events_for_def filter_map comp_def conj_commute)
  also have "filter (\<lambda>e. fst e = n \<and> fst (snd e) = t) (events cfg readdir)
          = concat (map (\<lambda>u. filter (\<lambda>e. fst e = n \<and> fst (snd e) = t)
                                  (folder_events cfg readdir u)) (instruments cfg))"
    by (simp add: events_def filter_concat comp_def)
  finally show ?thesis by (simp only: folder_events_filter)
qed

lemma filter_path_of:
  "t \<noteq> ''__proto__'' \<Longrightarrow>
   filter (\<lambda>p. fst p = t) (map path_of (filter (\<lambda>e. fst e \<noteq> ''__proto__'') es))
     = map path_of (filter (\<lambda>e. fst e = t) es)"
  by (induction es) (auto simp: path_of_def)

lemma scanned_stored_path:
  assumes "(n, k) \<in> set (scan cfg readdir)"
  shows "map_of (kit_instruments k) = stored_path cfg readdir n"
proof
  fix t
  let ?es = "events_for n (events cfg readdir)"
  let ?sel = "case readdir t of
                None \<Rightarrow> []
              | Some files \<Rightarrow> filter (\<lambda>f. accepted cfg f \<and> kit_name_of cfg f = n) files"
  have look: "map_of (kit_instruments k) t
          = map_option snd (last_opt (filter (\<lambda>p. fst p = t)
              (map path_of (filter (\<lambda>e. fst e \<noteq> ''__proto__'') ?es))))"
    unfolding scanned_instruments [OF assms] by (rule map_of_rev_last)
  show "map_of (kit_instruments k) t = stored_path cfg readdir n t"
  proof (cases "t = ''__proto__''")
    case True
    then have "filter (\<lambda>p. fst p = t) (map path_of (filter (\<lambda>e. fst e \<noteq> ''__proto__'') ?es)) = []"
      by (simp add: filter_empty_conv path_of_def)
    with True show ?thesis unfolding look by (simp add: stored_path_def)
  next
    case False
    then have "filter (\<lambda>p. fst p = t) (map path_of (filter (\<lambda>e. fst e \<noteq> ''__proto__'') ?es))
                 = map path_of (filter (\<lambda>e. fst e = t) ?es)"
      by (rule filter_path_of)
    then have "map_of (kit_instruments k) t
                 = map_option (\<lambda>e. snd (path_of e)) (last_opt (filter (\<lambda>e. fst e = t) ?es))"
      unfolding look by (simp add: last_opt_map option.map_comp comp_def)
    also have "\<dots> = map_option (\<lambda>e. snd (path_of (snd e)))
                       (last_opt (concat (map (\<lambda>u. if u = t then map (\<lambda>f. (n, t, f)) ?sel else [])
                                           (instruments cfg))))"
      unfolding events_filter by (simp add: last_opt_map option.map_comp comp_def)
    also have "\<dots> = map_option (\<lambda>e. snd (path_of (snd e)))
                       (if t \<in> set (instruments cfg) then last_opt (map (\<lambda>f. (n, t, f)) ?sel)
                        else None)"
      by (simp only: last_opt_block)
    also have "\<dots> = (if t \<in> set (instruments cfg)
                      then map_option (\<lambda>f. t @ ''/'' @ f) (last_opt ?sel) else None)"
      by (simp add: last_opt_map option.map_comp comp_def path_of_def)
    also have "\<dots> = stored_path cfg readdir n t"
      using False by (simp add: stored_path_def split: option.splits)
    finally show ?thesis .
  qed
qed

text \<open>
  C1, amended. Scan the folders in another order (a permutation of the vocabulary) and
  read every listing in another order (a permutation of its files; a folder that cannot
  be read stays unreadable). Then \<open>scan\<close> finds the same kit names, and each kit has
  the same name, id, available instruments and completeness, and paths for the same
  instruments. In either scan, the path that a kit stores for an instrument is that of
  the file that the listing of the instrument's folder gives last among the accepted
  files of the kit (no path is stored for the instrument \<open>__proto__\<close>). So the stored
  paths are the same too for every kit for which no folder holds two accepted files;
  where a folder holds two, the path of the one listed last is stored.
\<close>

theorem scan_order:
  assumes "mset (instruments cfg') = mset (instruments cfg)"
    and "fileExtension cfg' = fileExtension cfg"
    and "\<forall>t. rel_option (\<lambda>files files'. mset files' = mset files) (readdir t) (readdir' t)"
  shows "fst ` set (scan cfg' readdir') = fst ` set (scan cfg readdir) \<and>
         (\<forall>n k k'. (n, k) \<in> set (scan cfg readdir) \<and> (n, k') \<in> set (scan cfg' readdir') \<longrightarrow>
            name k' = name k \<and> kit_id k' = kit_id k \<and>
            availableInstruments k' = availableInstruments k \<and>
            completeness k' = completeness k \<and>
            dom (map_of (kit_instruments k')) = dom (map_of (kit_instruments k)) \<and>
            map_of (kit_instruments k) = stored_path cfg readdir n \<and>
            map_of (kit_instruments k') = stored_path cfg' readdir' n \<and>
            (no_clash cfg readdir n \<longrightarrow>
               map_of (kit_instruments k') = map_of (kit_instruments k)))"
proof (intro conjI allI impI)
  note ev = events_permuted [OF assms]
  have es: "set (events_for n (events cfg' readdir')) = set (events_for n (events cfg readdir))"
    for n
  proof -
    have "e \<in> set (events_for n (events cfg' readdir'))
            \<longleftrightarrow> e \<in> set (events_for n (events cfg readdir))" for e
      by (cases e) (simp add: events_for_mem ev)
    then show ?thesis by blast
  qed
  have empty: "events_for n (events cfg' readdir') = [] \<longleftrightarrow>
               events_for n (events cfg readdir) = []" for n
    using es [of n] by (metis set_empty)
  have "n \<in> fst ` set (scan cfg' readdir') \<longleftrightarrow> n \<in> fst ` set (scan cfg readdir)" for n
  proof -
    have "n \<in> fst ` set (scan c r) \<longleftrightarrow> events_for n (events c r) \<noteq> []" for c r
    proof -
      have "n \<in> fst ` set (scan c r) \<longleftrightarrow> (\<exists>k. (n, k) \<in> set (scan c r))" by force
      also have "\<dots> \<longleftrightarrow> events_for n (events c r) \<noteq> []" by (simp add: scan_mem)
      finally show ?thesis .
    qed
    then show ?thesis by (simp add: empty)
  qed
  then show "fst ` set (scan cfg' readdir') = fst ` set (scan cfg readdir)" by blast
  fix n k k'
  assume h: "(n, k) \<in> set (scan cfg readdir) \<and> (n, k') \<in> set (scan cfg' readdir')"
  then have k: "(n, k) \<in> set (scan cfg readdir)" and k': "(n, k') \<in> set (scan cfg' readdir')"
    by simp_all
  show "name k' = name k" using k k' by (simp add: scanned_name_id)
  show "kit_id k' = kit_id k" using k k' by (simp add: scanned_name_id)
  have tags: "set (map fst (events_for n (events cfg' readdir')))
                = set (map fst (events_for n (events cfg readdir)))"
    by (simp add: es)
  show av: "availableInstruments k' = availableInstruments k"
    unfolding scanned_available(1) [OF k] scanned_available(1) [OF k']
    by (rule sorted_distinct_set_unique) (simp_all add: uniq_props tags del: set_map)
  have len: "length (instruments cfg') = length (instruments cfg)"
    using assms(1) by (rule mset_eq_length)
  have c: "completeness k = percent (length (availableInstruments k)) (length (instruments cfg))"
    using scanned_completeness_aux [OF k] .
  have c': "completeness k' =
              percent (length (availableInstruments k')) (length (instruments cfg'))"
    using scanned_completeness_aux [OF k'] .
  show "completeness k' = completeness k" unfolding c c' av len ..
  show "dom (map_of (kit_instruments k')) = dom (map_of (kit_instruments k))"
    unfolding scanned_instruments [OF k] scanned_instruments [OF k'] dom_map_of_conv_image_fst
    by (simp add: es image_image)
  show "map_of (kit_instruments k) = stored_path cfg readdir n"
    using k by (rule scanned_stored_path)
  show "map_of (kit_instruments k') = stored_path cfg' readdir' n"
    using k' by (rule scanned_stored_path)
  assume nc: "no_clash cfg readdir n"
  show "map_of (kit_instruments k') = map_of (kit_instruments k)"
    unfolding scanned_instruments [OF k] scanned_instruments [OF k']
  proof (rule map_of_same_set)
    show "\<forall>t p p'.
            (t, p) \<in> set (rev (map path_of (filter (\<lambda>e. fst e \<noteq> ''__proto__'')
                                                 (events_for n (events cfg readdir))))) \<and>
            (t, p') \<in> set (rev (map path_of (filter (\<lambda>e. fst e \<noteq> ''__proto__'')
                                                  (events_for n (events cfg readdir)))))
            \<longrightarrow> p = p'"
      using no_clash_functional [OF nc] by blast
    show "set (rev (map path_of (filter (\<lambda>e. fst e \<noteq> ''__proto__'')
                                    (events_for n (events cfg' readdir')))))
            = set (rev (map path_of (filter (\<lambda>e. fst e \<noteq> ''__proto__'')
                                       (events_for n (events cfg readdir)))))"
      by (simp add: es)
  qed
qed


theorem scan_order_witness:
  "mset (instruments reversed_config) = mset (instruments CONFIG) \<and>
   (''Batman Begins'', batman_kit) \<in> set (scan CONFIG two_readdir) \<and>
   (''Batman Begins'', batman_kit_rev) \<in> set (scan reversed_config two_readdir_swapped) \<and>
   no_clash CONFIG two_readdir ''Batman Begins'' \<and>
   kit_instruments batman_kit_rev \<noteq> kit_instruments batman_kit \<and>
   map_of (kit_instruments batman_kit_rev) = map_of (kit_instruments batman_kit) \<and>
   availableInstruments batman_kit_rev = availableInstruments batman_kit \<and>
   completeness batman_kit_rev = completeness batman_kit \<and>
   rel_option (\<lambda>files files'. mset files' = mset files)
     (clash_readdir ''kick'') (clash_readdir_swapped ''kick'') \<and>
   clash_readdir ''kick'' = Some [''Batman Begins - kick.wav'', ''Batman Begins - Kick.wav''] \<and>
   (''Batman Begins'', clash_kit) \<in> set (scan CONFIG clash_readdir) \<and>
   (''Batman Begins'', clash_kit_swapped) \<in> set (scan CONFIG clash_readdir_swapped) \<and>
   \<not> no_clash CONFIG clash_readdir ''Batman Begins'' \<and>
   map_of (kit_instruments clash_kit) ''kick'' = Some ''kick/Batman Begins - Kick.wav'' \<and>
   map_of (kit_instruments clash_kit_swapped) ''kick'' = Some ''kick/Batman Begins - kick.wav'' \<and>
   dom (map_of (kit_instruments clash_kit_swapped)) = dom (map_of (kit_instruments clash_kit)) \<and>
   availableInstruments clash_kit_swapped = availableInstruments clash_kit \<and>
   completeness clash_kit_swapped = completeness clash_kit"
proof -
  have h1: "mset (instruments reversed_config) = mset (instruments CONFIG)"
    by (simp add: reversed_config_def)
  have h2: "fileExtension reversed_config = fileExtension CONFIG"
    by (simp add: reversed_config_def)
  have h3: "\<forall>t. rel_option (\<lambda>files files'. mset files' = mset files)
                  (two_readdir t) (two_readdir_swapped t)"
    by (simp add: two_readdir_def two_readdir_swapped_def)
  have k: "(''Batman Begins'', batman_kit) \<in> set (scan CONFIG two_readdir)"
    by code_simp
  have k': "(''Batman Begins'', batman_kit_rev) \<in> set (scan reversed_config two_readdir_swapped)"
    by code_simp
  have nc: "no_clash CONFIG two_readdir ''Batman Begins''"
    by code_simp
  have ne: "kit_instruments batman_kit_rev \<noteq> kit_instruments batman_kit"
    by (simp add: batman_kit_rev_def batman_kit_def)
  note plain = scan_order [OF h1 h2 h3, THEN conjunct2, THEN spec, THEN spec, THEN spec,
      THEN mp, OF conjI, OF k k']
  note plain3 = plain [THEN conjunct2, THEN conjunct2]
  note plain8 = plain3 [THEN conjunct2, THEN conjunct2, THEN conjunct2, THEN conjunct2,
      THEN conjunct2]
  have av: "availableInstruments batman_kit_rev = availableInstruments batman_kit"
    by (rule plain3 [THEN conjunct1])
  have co: "completeness batman_kit_rev = completeness batman_kit"
    by (rule plain3 [THEN conjunct2, THEN conjunct1])
  have same: "map_of (kit_instruments batman_kit_rev) = map_of (kit_instruments batman_kit)"
    by (rule plain8 [THEN mp, OF nc])
  have g1: "mset (instruments CONFIG) = mset (instruments CONFIG)" ..
  have g2: "fileExtension CONFIG = fileExtension CONFIG" ..
  have g3: "\<forall>t. rel_option (\<lambda>files files'. mset files' = mset files)
                  (clash_readdir t) (clash_readdir_swapped t)"
    by (simp add: clash_readdir_def clash_readdir_swapped_def add_mset_commute)
  then have g3k: "rel_option (\<lambda>files files'. mset files' = mset files)
                    (clash_readdir ''kick'') (clash_readdir_swapped ''kick'')" ..
  have listing: "clash_readdir ''kick''
                   = Some [''Batman Begins - kick.wav'', ''Batman Begins - Kick.wav'']"
    by (simp add: clash_readdir_def)
  have c: "(''Batman Begins'', clash_kit) \<in> set (scan CONFIG clash_readdir)"
    by code_simp
  have c': "(''Batman Begins'', clash_kit_swapped) \<in> set (scan CONFIG clash_readdir_swapped)"
    by code_simp
  have cl: "\<not> no_clash CONFIG clash_readdir ''Batman Begins''"
    by code_simp
  have s: "stored_path CONFIG clash_readdir ''Batman Begins'' ''kick''
             = Some ''kick/Batman Begins - Kick.wav''"
    by code_simp
  have s': "stored_path CONFIG clash_readdir_swapped ''Batman Begins'' ''kick''
              = Some ''kick/Batman Begins - kick.wav''"
    by code_simp
  note clash = scan_order [OF g1 g2 g3, THEN conjunct2, THEN spec, THEN spec, THEN spec,
      THEN mp, OF conjI, OF c c']
  note clash3 = clash [THEN conjunct2, THEN conjunct2]
  note clash5 = clash3 [THEN conjunct2, THEN conjunct2]
  have av2: "availableInstruments clash_kit_swapped = availableInstruments clash_kit"
    by (rule clash3 [THEN conjunct1])
  have co2: "completeness clash_kit_swapped = completeness clash_kit"
    by (rule clash3 [THEN conjunct2, THEN conjunct1])
  have dm: "dom (map_of (kit_instruments clash_kit_swapped))
              = dom (map_of (kit_instruments clash_kit))"
    by (rule clash5 [THEN conjunct1])
  have st: "map_of (kit_instruments clash_kit) = stored_path CONFIG clash_readdir ''Batman Begins''"
    by (rule clash5 [THEN conjunct2, THEN conjunct1])
  have st': "map_of (kit_instruments clash_kit_swapped)
               = stored_path CONFIG clash_readdir_swapped ''Batman Begins''"
    by (rule clash5 [THEN conjunct2, THEN conjunct2, THEN conjunct1])
  have p: "map_of (kit_instruments clash_kit) ''kick'' = Some ''kick/Batman Begins - Kick.wav''"
    unfolding st s ..
  have p': "map_of (kit_instruments clash_kit_swapped) ''kick''
              = Some ''kick/Batman Begins - kick.wav''"
    unfolding st' s' ..
  show ?thesis
    by (intro conjI h1 k k' nc ne same av co g3k listing c c' cl p p' dm av2 co2)
qed

section \<open>Inputs on which the claims as stated fail\<close>

text \<open>
  C2 as stated fails for a required extension that is the empty string: \<open>slice(0, -0)\<close>
  leaves nothing of the filename, so \<open>A - kick\<close> is rejected although it has the claimed
  form and its tag is in the vocabulary. It also fails for a tag that is in the
  vocabulary only before it is trimmed: with the vocabulary \<open>[" kick"]\<close> the tag of
  \<open>A -  kick.wav\<close> is \<open>" kick"\<close>, and the file is rejected.
\<close>

theorem parseFilename_valid_counterexample:
  "''A - kick'' = ''A'' @ '' - '' @ ''kick'' @ fileExtension bare_config \<and>
   is_last_occurrence (''A'' @ '' - '' @ ''kick'') '' - '' (length ''A'') \<and>
   toLowerCase ''kick'' \<in> set (instruments bare_config) \<and>
   parseFilename bare_config ''A - kick'' = None \<and>
   ''A -  kick.wav'' = ''A'' @ '' - '' @ '' kick'' @ fileExtension padded_config \<and>
   is_last_occurrence (''A'' @ '' - '' @ '' kick'') '' - '' (length ''A'') \<and>
   toLowerCase '' kick'' \<in> set (instruments padded_config) \<and>
   parseFilename padded_config ''A -  kick.wav'' = None"
proof (intro conjI)
  show "''A - kick'' = ''A'' @ '' - '' @ ''kick'' @ fileExtension bare_config"
    by (simp add: bare_config_def)
  show "is_last_occurrence (''A'' @ '' - '' @ ''kick'') '' - '' (length ''A'')" by code_simp
  show "toLowerCase ''kick'' \<in> set (instruments bare_config)" by code_simp
  show "parseFilename bare_config ''A - kick'' = None" by code_simp
  show "''A -  kick.wav'' = ''A'' @ '' - '' @ '' kick'' @ fileExtension padded_config"
    by (simp add: padded_config_def CONFIG_def)
  show "is_last_occurrence (''A'' @ '' - '' @ '' kick'') '' - '' (length ''A'')" by code_simp
  show "toLowerCase '' kick'' \<in> set (instruments padded_config)" by code_simp
  show "parseFilename padded_config ''A -  kick.wav'' = None" by code_simp
qed

text \<open>
  C1 as stated fails: with \<open>Batman Begins - kick.wav\<close> and \<open>Batman Begins - Kick.wav\<close>
  in the folder \<open>kick\<close>, the path stored for \<open>kick\<close> depends on which of the two the
  listing gives last.
\<close>

theorem scan_order_counterexample:
  "mset [''Batman Begins - Kick.wav'', ''Batman Begins - kick.wav'']
     = mset [''Batman Begins - kick.wav'', ''Batman Begins - Kick.wav''] \<and>
   map_option (\<lambda>k. map_of (kit_instruments k) ''kick'')
     (map_of (scan CONFIG clash_readdir) ''Batman Begins'')
     = Some (Some ''kick/Batman Begins - Kick.wav'') \<and>
   map_option (\<lambda>k. map_of (kit_instruments k) ''kick'')
     (map_of (scan CONFIG clash_readdir_swapped) ''Batman Begins'')
     = Some (Some ''kick/Batman Begins - kick.wav'')"
proof (intro conjI)
  show "mset [''Batman Begins - Kick.wav'', ''Batman Begins - kick.wav'']
     = mset [''Batman Begins - kick.wav'', ''Batman Begins - Kick.wav'']"
    by (simp add: add_mset_commute)
  show "map_option (\<lambda>k. map_of (kit_instruments k) ''kick'')
     (map_of (scan CONFIG clash_readdir) ''Batman Begins'')
     = Some (Some ''kick/Batman Begins - Kick.wav'')"
    by code_simp
  show "map_option (\<lambda>k. map_of (kit_instruments k) ''kick'')
     (map_of (scan CONFIG clash_readdir_swapped) ''Batman Begins'')
     = Some (Some ''kick/Batman Begins - kick.wav'')"
    by code_simp
qed

text \<open>
  C4 as stated fails for a vocabulary that repeats a tag: with the vocabulary
  \<open>[kick, kick]\<close> the kit \<open>Solo\<close> has every tag of the vocabulary, and its completeness is
  50.
\<close>

theorem scanned_completeness_counterexample:
  "(''Solo'', half_kit) \<in> set (scan twice_config solo_readdir) \<and>
   set (availableInstruments half_kit) = set (instruments twice_config) \<and>
   completeness half_kit = 50 \<and> completeness half_kit \<noteq> 100"
proof (intro conjI)
  show "(''Solo'', half_kit) \<in> set (scan twice_config solo_readdir)" by code_simp
  show "set (availableInstruments half_kit) = set (instruments twice_config)"
    by (simp add: half_kit_def solo_kit_def twice_config_def)
  show "completeness half_kit = 50" by (simp add: half_kit_def)
  show "completeness half_kit \<noteq> 100" by (simp add: half_kit_def)
qed




end
